theory Spec2Isabelle
  imports
    Main
    "HOL-Library.Word"
    "HOL-Library.Signed_Division"
    "HOL-Library.AList"
    "HOL-Library.Multiset"
begin

section \<open>The locker service of AmazonLocker.cpp\<close>

text \<open>
  The embedding follows \<^verbatim>\<open>src/Amazon Locker System/Cpp/AmazonLocker.cpp\<close>.
  \<^item> \<^verbatim>\<open>long long\<close> instants are \<open>64 word\<close>, read as two's complement by \<open>sint\<close>.
    The subtraction in \<^verbatim>\<open>cleanup\<close> is the machine's wrapping subtraction (C++ leaves a
    signed overflow undefined); the comparison is the signed one.
  \<^item> \<^verbatim>\<open>std::deque<std::string> queues[3]\<close> is three lists, front of the deque first.
  \<^item> \<^verbatim>\<open>std::unordered_map<std::string, Ticket>\<close> is an association list; its order
    stands for the iteration order of the container, which C++ leaves open.
  \<^item> The clock is read once in \<^verbatim>\<open>deposit\<close> and once in \<^verbatim>\<open>cleanup\<close>; the reading is the
    argument \<open>now\<close> of the modelled operation.
  \<^item> A thrown exception is the \<open>Inl\<close> of the result, together with the state the
    service is left in.
  \<^item> The mutex is held for the whole of each operation, so each operation is one
    atomic state transformer.
\<close>

subsection \<open>Core domain\<close>

datatype Size = SMALL | MEDIUM | LARGE

record Ticket =
  lockerId :: string
  code :: string
  creationTime :: "64 word"

datatype error = runtime_error string | invalid_argument string

record LockerService =
  queues0 :: "string list"
  queues1 :: "string list"
  queues2 :: "string list"
  activeTickets :: "(string \<times> Ticket) list"

subsection \<open>\<^verbatim>\<open>std::to_string\<close> on integers\<close>

definition digit_char :: "nat \<Rightarrow> char" where
  "digit_char d = ''0123456789'' ! d"

fun nat_digits :: "nat \<Rightarrow> string" where
  "nat_digits n = (if n < 10 then [digit_char n] else nat_digits (n div 10) @ [digit_char (n mod 10)])"

declare nat_digits.simps [simp del]

definition to_string :: "int \<Rightarrow> string" where
  "to_string i = (if i < 0 then CHR ''-'' # nat_digits (nat (- i)) else nat_digits (nat i))"

subsection \<open>Private helpers of the service\<close>

definition sizeToInt :: "Size \<Rightarrow> nat" where
  "sizeToInt s = (case s of SMALL \<Rightarrow> 0 | MEDIUM \<Rightarrow> 1 | LARGE \<Rightarrow> 2)"

definition sizeToString :: "Size \<Rightarrow> string" where
  "sizeToString s = (case s of SMALL \<Rightarrow> ''SMALL'' | MEDIUM \<Rightarrow> ''MEDIUM'' | LARGE \<Rightarrow> ''LARGE'')"

text \<open>Lines 71-84. The empty string is the failure value; \<open>hd\<close> is only taken of a
  non-empty queue.\<close>

definition pop0 :: "LockerService \<Rightarrow> string \<times> LockerService" where
  "pop0 s = (hd (queues0 s), s\<lparr>queues0 := tl (queues0 s)\<rparr>)"

definition pop1 :: "LockerService \<Rightarrow> string \<times> LockerService" where
  "pop1 s = (hd (queues1 s), s\<lparr>queues1 := tl (queues1 s)\<rparr>)"

definition pop2 :: "LockerService \<Rightarrow> string \<times> LockerService" where
  "pop2 s = (hd (queues2 s), s\<lparr>queues2 := tl (queues2 s)\<rparr>)"

definition findBestFit :: "Size \<Rightarrow> LockerService \<Rightarrow> string \<times> LockerService" where
  "findBestFit requestedSize s =
     (if requestedSize = SMALL then
        (if queues0 s \<noteq> [] then pop0 s
         else if queues1 s \<noteq> [] then pop1 s
         else if queues2 s \<noteq> [] then pop2 s
         else ([], s))
      else if requestedSize = MEDIUM then
        (if queues1 s \<noteq> [] then pop1 s
         else if queues2 s \<noteq> [] then pop2 s
         else ([], s))
      else if requestedSize = LARGE then
        (if queues2 s \<noteq> [] then pop2 s
         else ([], s))
      else ([], s))"

text \<open>Lines 86-90. \<^verbatim>\<open>front()\<close> of an empty string is outside the contract of
  \<^verbatim>\<open>std::string\<close>; the usual library reads the terminating NUL there, which matches no
  branch, so the model leaves the pools as they are.\<close>

definition returnLocker :: "string \<Rightarrow> LockerService \<Rightarrow> LockerService" where
  "returnLocker l s =
     (case l of
        [] \<Rightarrow> s
      | c # _ \<Rightarrow>
          if c = CHR ''S'' then s\<lparr>queues0 := queues0 s @ [l]\<rparr>
          else if c = CHR ''M'' then s\<lparr>queues1 := queues1 s @ [l]\<rparr>
          else if c = CHR ''L'' then s\<lparr>queues2 := queues2 s @ [l]\<rparr>
          else s)"

subsection \<open>Public operations\<close>

text \<open>Lines 93-98: the constructor seeds ten lockers per class.\<close>

definition seed :: "string \<Rightarrow> string list" where
  "seed p = map (\<lambda>i. p @ to_string (int i)) [0..<10]"

definition new_LockerService :: LockerService where
  "new_LockerService =
     \<lparr>queues0 = seed ''S-'', queues1 = seed ''M-'', queues2 = seed ''L-'', activeTickets = []\<rparr>"

text \<open>Lines 100-115. \<^verbatim>\<open>now % 10000\<close> truncates towards zero, as \<open>smod\<close> does.\<close>

definition mint :: "string \<Rightarrow> 64 word \<Rightarrow> Ticket" where
  "mint bestLockerId now =
     \<lparr>lockerId = bestLockerId,
      code = bestLockerId @ ''-'' @ to_string (sint now smod 10000),
      creationTime = now\<rparr>"

definition deposit :: "Size \<Rightarrow> 64 word \<Rightarrow> LockerService \<Rightarrow> (error + Ticket) \<times> LockerService" where
  "deposit requestedSize now s =
     (case findBestFit requestedSize s of
        (bestLockerId, s1) \<Rightarrow>
          if bestLockerId = [] then
            (Inl (runtime_error (''No locker available for size '' @ sizeToString requestedSize)), s1)
          else
            let ticket = mint bestLockerId now
            in (Inr ticket, s1\<lparr>activeTickets := AList.update (code ticket) ticket (activeTickets s1)\<rparr>))"

text \<open>Lines 117-139.\<close>

definition pickup :: "string \<Rightarrow> LockerService \<Rightarrow> (error + string) \<times> LockerService" where
  "pickup c s =
     (case map_of (activeTickets s) c of
        None \<Rightarrow> (Inl (invalid_argument (''Invalid or expired code: '' @ c)), s)
      | Some ticket \<Rightarrow>
          (Inr (''Locker '' @ lockerId ticket @ '' opened. Package retrieved.''),
           returnLocker (lockerId ticket) (s\<lparr>activeTickets := AList.delete c (activeTickets s)\<rparr>)))"

text \<open>Lines 141-158. The iterator stands between the entries already passed (\<open>kept\<close>)
  and those still ahead; \<^verbatim>\<open>erase(it)\<close> drops the entry at the iterator, \<^verbatim>\<open>++it\<close> passes
  it. The function returns \<^verbatim>\<open>void\<close>, here \<open>()\<close>; the second component is what it writes
  to \<^verbatim>\<open>std::cout\<close>, one line per element.\<close>

definition threeDaysInMillis :: "64 word" where
  "threeDaysInMillis = 3 * 24 * 60 * 60 * 1000"

definition expired :: "64 word \<Rightarrow> Ticket \<Rightarrow> bool" where
  "expired now t = (threeDaysInMillis <s now - creationTime t)"

fun cleanup_loop ::
  "64 word \<Rightarrow> (string \<times> Ticket) list \<Rightarrow> (string \<times> Ticket) list \<Rightarrow> LockerService
     \<Rightarrow> string list \<times> LockerService" where
  "cleanup_loop now kept [] s = ([], s)"
| "cleanup_loop now kept ((k, t) # rest) s =
     (if expired now t then
        (case cleanup_loop now kept rest
                ((returnLocker (lockerId t) s)\<lparr>activeTickets := kept @ rest\<rparr>) of
           (out, s') \<Rightarrow> ((''Expired package removed from '' @ lockerId t) # out, s'))
      else cleanup_loop now (kept @ [(k, t)]) rest s)"

definition cleanup :: "64 word \<Rightarrow> LockerService \<Rightarrow> unit \<times> string list \<times> LockerService" where
  "cleanup now s = ((), cleanup_loop now [] (activeTickets s) s)"

subsection \<open>Runs of the service\<close>

text \<open>A call of a public operation, with the clock reading it gets.\<close>

datatype call = Deposit Size "64 word" | Pickup string | Cleanup "64 word"

fun exec :: "call \<Rightarrow> LockerService \<Rightarrow> LockerService" where
  "exec (Deposit sz now) s = snd (deposit sz now s)"
| "exec (Pickup c) s = snd (pickup c s)"
| "exec (Cleanup now) s = snd (snd (cleanup now s))"

definition run :: "call list \<Rightarrow> LockerService" where
  "run cs = fold exec cs new_LockerService"

text \<open>The three pools, smallest class first.\<close>

definition pools :: "LockerService \<Rightarrow> string list list" where
  "pools s = [queues0 s, queues1 s, queues2 s]"

definition free :: "LockerService \<Rightarrow> string multiset" where
  "free s = mset (queues0 s) + mset (queues1 s) + mset (queues2 s)"

definition occupied :: "LockerService \<Rightarrow> string multiset" where
  "occupied s = mset (map (\<lambda>e. lockerId (snd e)) (activeTickets s))"

subsection \<open>Notions used in the statements\<close>

text \<open>The first character of a locker identifier names its class, as \<^verbatim>\<open>returnLocker\<close>
  reads it.\<close>

definition starts :: "char \<Rightarrow> string \<Rightarrow> bool" where
  "starts c l = (case l of [] \<Rightarrow> False | d # _ \<Rightarrow> d = c)"

text \<open>The inventory seeded by the constructor.\<close>

definition inventory :: "string list" where
  "inventory = seed ''S-'' @ seed ''M-'' @ seed ''L-''"

text \<open>A table entry as \<^verbatim>\<open>deposit\<close> writes it: keyed by the ticket's code, and the code
  derived from the ticket's locker and creation instant.\<close>

definition minted :: "string \<times> Ticket \<Rightarrow> bool" where
  "minted e = (fst e = code (snd e) \<and> snd e = mint (lockerId (snd e)) (creationTime (snd e)))"

text \<open>The invariant of the states a run can reach.\<close>

definition inv :: "LockerService \<Rightarrow> bool" where
  "inv s = (free s + occupied s = mset inventory
     \<and> set (queues0 s) \<subseteq> set (seed ''S-'')
     \<and> set (queues1 s) \<subseteq> set (seed ''M-'')
     \<and> set (queues2 s) \<subseteq> set (seed ''L-'')
     \<and> distinct (map fst (activeTickets s))
     \<and> list_all minted (activeTickets s))"

text \<open>The lockers a sweep at \<open>now\<close> reclaims, in the order the table is scanned.\<close>

definition reclaimed :: "64 word \<Rightarrow> LockerService \<Rightarrow> string list" where
  "reclaimed now s = map (\<lambda>e. lockerId (snd e)) (filter (\<lambda>e. expired now (snd e)) (activeTickets s))"

text \<open>The inventory of the specification's scenario: two SMALL lockers and no others. The
  constructor of the source always seeds ten lockers per class, so this state is given
  directly; the operations of the source are then run on it.\<close>

definition two_small :: LockerService where
  "two_small = \<lparr>queues0 = [''S-0'', ''S-1''], queues1 = [], queues2 = [], activeTickets = []\<rparr>"

section \<open>Auxiliary facts\<close>

subsection \<open>The seeded inventory\<close>

lemma seed_S: "seed ''S-'' = [''S-0'',''S-1'',''S-2'',''S-3'',''S-4'',''S-5'',''S-6'',''S-7'',''S-8'',''S-9'']"
  by code_simp
lemma seed_M: "seed ''M-'' = [''M-0'',''M-1'',''M-2'',''M-3'',''M-4'',''M-5'',''M-6'',''M-7'',''M-8'',''M-9'']"
  by code_simp
lemma seed_L: "seed ''L-'' = [''L-0'',''L-1'',''L-2'',''L-3'',''L-4'',''L-5'',''L-6'',''L-7'',''L-8'',''L-9'']"
  by code_simp

lemma distinct_inventory: "distinct inventory"
  by (simp add: inventory_def seed_S seed_M seed_L)

lemma inventory_length: "l \<in> set inventory \<Longrightarrow> length l = 3"
  unfolding inventory_def seed_S seed_M seed_L by (simp, elim disjE; simp)

lemma inventory_S: "l \<in> set inventory \<Longrightarrow> starts CHR ''S'' l = (l \<in> set (seed ''S-''))"
  unfolding inventory_def seed_S seed_M seed_L starts_def by (simp, elim disjE; simp)
lemma inventory_M: "l \<in> set inventory \<Longrightarrow> starts CHR ''M'' l = (l \<in> set (seed ''M-''))"
  unfolding inventory_def seed_S seed_M seed_L starts_def by (simp, elim disjE; simp)
lemma inventory_L: "l \<in> set inventory \<Longrightarrow> starts CHR ''L'' l = (l \<in> set (seed ''L-''))"
  unfolding inventory_def seed_S seed_M seed_L starts_def by (simp, elim disjE; simp)

lemma starts_excl:
  "starts c l \<Longrightarrow> starts d l \<Longrightarrow> c = d"
  by (auto simp: starts_def split: list.splits)

lemma inventory_class: "l \<in> set inventory \<Longrightarrow> starts CHR ''S'' l \<or> starts CHR ''M'' l \<or> starts CHR ''L'' l"
  unfolding inventory_def seed_S seed_M seed_L starts_def by (simp, elim disjE; simp)

subsection \<open>returnLocker\<close>

lemma returnLocker_queues0:
  "queues0 (returnLocker l s) = queues0 s @ filter (starts CHR ''S'') [l]"
  by (simp add: returnLocker_def starts_def split: list.split)

lemma returnLocker_queues1:
  "queues1 (returnLocker l s) = queues1 s @ filter (starts CHR ''M'') [l]"
  by (simp add: returnLocker_def starts_def split: list.split)

lemma returnLocker_queues2:
  "queues2 (returnLocker l s) = queues2 s @ filter (starts CHR ''L'') [l]"
  by (simp add: returnLocker_def starts_def split: list.split)

lemma returnLocker_activeTickets:
  "activeTickets (returnLocker l s) = activeTickets s"
  by (simp add: returnLocker_def split: list.split)

lemma returnLocker_tickets_update:
  "returnLocker l (s\<lparr>activeTickets := tab\<rparr>) = (returnLocker l s)\<lparr>activeTickets := tab\<rparr>"
  by (simp add: returnLocker_def split: list.split)

lemma state_eqI:
  fixes s s' :: LockerService
  assumes "queues0 s = queues0 s'" "queues1 s = queues1 s'" "queues2 s = queues2 s'"
    "activeTickets s = activeTickets s'"
  shows "s = s'"
  using assms by simp

subsection \<open>cleanup loop\<close>

lemma cleanup_loop_activeTickets:
  "activeTickets s = kept @ rest \<Longrightarrow>
   activeTickets (snd (cleanup_loop now kept rest s)) = kept @ filter (\<lambda>e. \<not> expired now (snd e)) rest"
proof (induction rest arbitrary: kept s)
  case Nil
  then show ?case by simp
next
  case (Cons e rest)
  obtain k t where e: "e = (k, t)" by (cases e)
  show ?case
  proof (cases "expired now t")
    case True
    have "activeTickets (snd (cleanup_loop now kept rest
             ((returnLocker (lockerId t) s)\<lparr>activeTickets := kept @ rest\<rparr>)))
          = kept @ filter (\<lambda>e. \<not> expired now (snd e)) rest"
      by (rule Cons.IH) simp
    with True e show ?thesis by (simp add: case_prod_beta)
  next
    case False
    have "activeTickets (snd (cleanup_loop now (kept @ [(k, t)]) rest s))
          = (kept @ [(k, t)]) @ filter (\<lambda>e. \<not> expired now (snd e)) rest"
      by (rule Cons.IH) (simp add: Cons.prems e)
    with False e show ?thesis by simp
  qed
qed

lemma cleanup_loop_out:
  "fst (cleanup_loop now kept rest s) =
     map (\<lambda>e. ''Expired package removed from '' @ lockerId (snd e))
       (filter (\<lambda>e. expired now (snd e)) rest)"
  by (induction now kept rest s rule: cleanup_loop.induct) (simp_all add: case_prod_beta)

lemma cleanup_loop_queues0:
  "queues0 (snd (cleanup_loop now kept rest s)) =
     queues0 s @ filter (starts CHR ''S'') (map (\<lambda>e. lockerId (snd e)) (filter (\<lambda>e. expired now (snd e)) rest))"
  by (induction now kept rest s rule: cleanup_loop.induct)
     (simp_all add: returnLocker_queues0 case_prod_beta)

lemma cleanup_loop_queues1:
  "queues1 (snd (cleanup_loop now kept rest s)) =
     queues1 s @ filter (starts CHR ''M'') (map (\<lambda>e. lockerId (snd e)) (filter (\<lambda>e. expired now (snd e)) rest))"
  by (induction now kept rest s rule: cleanup_loop.induct)
     (simp_all add: returnLocker_queues1 case_prod_beta)

lemma cleanup_loop_queues2:
  "queues2 (snd (cleanup_loop now kept rest s)) =
     queues2 s @ filter (starts CHR ''L'') (map (\<lambda>e. lockerId (snd e)) (filter (\<lambda>e. expired now (snd e)) rest))"
  by (induction now kept rest s rule: cleanup_loop.induct)
     (simp_all add: returnLocker_queues2 case_prod_beta)

lemma cleanup_state:
  "snd (snd (cleanup now s)) =
     s\<lparr>queues0 := queues0 s @ filter (starts CHR ''S'') (reclaimed now s),
       queues1 := queues1 s @ filter (starts CHR ''M'') (reclaimed now s),
       queues2 := queues2 s @ filter (starts CHR ''L'') (reclaimed now s),
       activeTickets := filter (\<lambda>e. \<not> expired now (snd e)) (activeTickets s)\<rparr>"
  by (rule state_eqI)
     (simp_all add: cleanup_def reclaimed_def cleanup_loop_queues0 cleanup_loop_queues1
        cleanup_loop_queues2 cleanup_loop_activeTickets [where kept = "[]", simplified])

lemma cleanup_out:
  "fst (snd (cleanup now s)) = map (\<lambda>l. ''Expired package removed from '' @ l) (reclaimed now s)"
  by (simp add: cleanup_def cleanup_loop_out reclaimed_def comp_def)

subsection \<open>findBestFit\<close>

lemma findBestFit_cases:
  assumes "findBestFit sz s = (l, s1)"
  obtains
    (none) "l = []" "s1 = s" "\<forall>q\<in>set (drop (sizeToInt sz) (pools s)). q = []"
  | (q0) "sz = SMALL" "queues0 s = l # tl (queues0 s)" "s1 = s\<lparr>queues0 := tl (queues0 s)\<rparr>"
  | (q1) "sz \<noteq> LARGE" "sz = SMALL \<longrightarrow> queues0 s = []" "queues1 s = l # tl (queues1 s)"
      "s1 = s\<lparr>queues1 := tl (queues1 s)\<rparr>"
  | (q2) "sz = SMALL \<longrightarrow> queues0 s = []" "sz \<noteq> LARGE \<longrightarrow> queues1 s = []"
      "queues2 s = l # tl (queues2 s)" "s1 = s\<lparr>queues2 := tl (queues2 s)\<rparr>"
proof (cases sz)
  case SMALL
  with assms that show ?thesis
    by (auto simp: findBestFit_def pop0_def pop1_def pop2_def pools_def sizeToInt_def
        split: if_splits)
next
  case MEDIUM
  with assms that show ?thesis
    by (auto simp: findBestFit_def pop0_def pop1_def pop2_def pools_def sizeToInt_def
        split: if_splits)
next
  case LARGE
  with assms that show ?thesis
    by (auto simp: findBestFit_def pop0_def pop1_def pop2_def pools_def sizeToInt_def
        split: if_splits)
qed

lemma findBestFit_effect:
  assumes "findBestFit sz s = (l, s1)"
  shows "(l = [] \<and> s1 = s) \<or>
         (free s = add_mset l (free s1) \<and> activeTickets s1 = activeTickets s
          \<and> set (queues0 s1) \<subseteq> set (queues0 s)
          \<and> set (queues1 s1) \<subseteq> set (queues1 s)
          \<and> set (queues2 s1) \<subseteq> set (queues2 s))"
  using assms
proof (cases rule: findBestFit_cases)
  case none
  then show ?thesis by simp
next
  case q0
  have "mset (queues0 s) = add_mset l (mset (tl (queues0 s)))"
    by (subst q0(2)) simp
  moreover have "set (tl (queues0 s)) \<subseteq> set (queues0 s)"
    by (subst (2) q0(2)) auto
  ultimately show ?thesis using q0(3) by (simp add: free_def)
next
  case q1
  have "mset (queues1 s) = add_mset l (mset (tl (queues1 s)))"
    by (subst q1(3)) simp
  moreover have "set (tl (queues1 s)) \<subseteq> set (queues1 s)"
    by (subst (2) q1(3)) auto
  ultimately show ?thesis using q1(4) by (simp add: free_def)
next
  case q2
  have "mset (queues2 s) = add_mset l (mset (tl (queues2 s)))"
    by (subst q2(3)) simp
  moreover have "set (tl (queues2 s)) \<subseteq> set (queues2 s)"
    by (subst (2) q2(3)) auto
  ultimately show ?thesis using q2(4) by (simp add: free_def)
qed

subsection \<open>The ticket table\<close>

lemma update_fresh: "k \<notin> fst ` set al \<Longrightarrow> AList.update k v al = al @ [(k, v)]"
  by (induction al) auto

lemma mset_delete:
  "distinct (map fst al) \<Longrightarrow> (k, v) \<in> set al \<Longrightarrow> add_mset (k, v) (mset (AList.delete k al)) = mset al"
proof (induction al)
  case Nil
  then show ?case by simp
next
  case (Cons e al)
  show ?case
  proof (cases "e = (k, v)")
    case True
    with Cons.prems have "k \<notin> fst ` set al" by auto
    with True show ?thesis by simp
  next
    case False
    with Cons.prems have "fst e \<noteq> k" by (cases e) force
    with False Cons show ?thesis by (cases e) auto
  qed
qed

lemma mset_split_expired:
  "mset (map f (filter P xs)) + mset (map f (filter (\<lambda>x. \<not> P x) xs)) = mset (map f xs)"
  by (induction xs) simp_all

lemma class_partition:
  "set E \<subseteq> set inventory \<Longrightarrow>
     mset (filter (starts CHR ''S'') E) + mset (filter (starts CHR ''M'') E)
       + mset (filter (starts CHR ''L'') E) = mset E"
proof (induction E)
  case Nil
  then show ?case by simp
next
  case (Cons l E)
  then have l: "l \<in> set inventory" and E: "set E \<subseteq> set inventory" by simp_all
  from inventory_class [OF l] Cons.IH [OF E] show ?case
    by (auto dest: starts_excl)
qed


subsection \<open>The invariant\<close>

lemma inv_free_inventory: "inv s \<Longrightarrow> l \<in># free s \<Longrightarrow> l \<in> set inventory"
proof -
  assume "inv s" and l: "l \<in># free s"
  then have "free s + occupied s = mset inventory" by (simp add: inv_def)
  moreover from l have "l \<in># free s + occupied s" by simp
  ultimately show ?thesis by simp
qed

lemma inv_occupied_inventory: "inv s \<Longrightarrow> l \<in># occupied s \<Longrightarrow> l \<in> set inventory"
proof -
  assume "inv s" and l: "l \<in># occupied s"
  then have "free s + occupied s = mset inventory" by (simp add: inv_def)
  moreover from l have "l \<in># free s + occupied s" by simp
  ultimately show ?thesis by simp
qed

lemma inv_free_not_occupied:
  assumes "inv s" "l \<in># free s"
  shows "l \<notin># occupied s"
proof
  assume occ: "l \<in># occupied s"
  from assms(2) have "1 \<le> count (free s) l" by (simp only: count_greater_eq_one_iff)
  moreover from occ have "1 \<le> count (occupied s) l" by (simp only: count_greater_eq_one_iff)
  moreover have "count (free s + occupied s) l = count (free s) l + count (occupied s) l"
    by simp
  ultimately have "2 \<le> count (free s + occupied s) l" by linarith
  moreover from assms(1) have "free s + occupied s = mset inventory" by (simp add: inv_def)
  ultimately have "2 \<le> count (mset inventory) l" by simp
  moreover have "count (mset inventory) l \<le> 1"
    using distinct_inventory by (simp add: distinct_count_atmost_1)
  ultimately show False by simp
qed

lemma minted_key: "minted e \<Longrightarrow> \<exists>sfx. fst e = lockerId (snd e) @ ''-'' @ sfx"
proof -
  assume m: "minted e"
  then have "code (snd e) = code (mint (lockerId (snd e)) (creationTime (snd e)))"
    by (simp add: minted_def)
  then have "code (snd e) = lockerId (snd e) @ ''-'' @ to_string (sint (creationTime (snd e)) smod 10000)"
    by (simp add: mint_def)
  with m show ?thesis by (auto simp: minted_def)
qed

lemma minted_mint: "minted (code (mint l now), mint l now)"
  by (simp add: minted_def mint_def)

lemma occupiedI: "e \<in> set (activeTickets s) \<Longrightarrow> lockerId (snd e) \<in># occupied s"
  by (auto simp: occupied_def)

lemma inv_fresh_code:
  assumes "inv s" "l \<in># free s"
  shows "code (mint l now) \<notin> fst ` set (activeTickets s)"
proof
  assume "code (mint l now) \<in> fst ` set (activeTickets s)"
  then obtain e where e: "e \<in> set (activeTickets s)" and k: "fst e = code (mint l now)"
    by auto
  from assms(1) e have "minted e" by (simp add: inv_def list_all_iff)
  then obtain sfx where "fst e = lockerId (snd e) @ ''-'' @ sfx"
    using minted_key by blast
  with k have eq: "lockerId (snd e) @ ''-'' @ sfx = l @ ''-'' @ to_string (sint now smod 10000)"
    by (simp add: mint_def)
  from e have occ: "lockerId (snd e) \<in># occupied s" by (rule occupiedI)
  with assms(1) have "length (lockerId (snd e)) = 3"
    by (blast intro: inventory_length inv_occupied_inventory)
  moreover from assms have "length l = 3"
    by (blast intro: inventory_length inv_free_inventory)
  ultimately have "length (lockerId (snd e)) = length l" by simp
  with eq have "lockerId (snd e) = l"
    using append_eq_append_conv
      [of "lockerId (snd e)" l "''-'' @ sfx" "''-'' @ to_string (sint now smod 10000)"]
    by blast
  with occ inv_free_not_occupied [OF assms] show False by simp
qed

lemma free_tickets_update [simp]: "free (s\<lparr>activeTickets := tab\<rparr>) = free s"
  by (simp add: free_def)

lemma findBestFit_inv:
  assumes "inv s" "findBestFit sz s = (l, s1)"
  shows "(l = [] \<and> s1 = s) \<or>
         (l \<noteq> [] \<and> l \<in> set inventory \<and> free s = add_mset l (free s1)
          \<and> activeTickets s1 = activeTickets s
          \<and> set (queues0 s1) \<subseteq> set (queues0 s)
          \<and> set (queues1 s1) \<subseteq> set (queues1 s)
          \<and> set (queues2 s1) \<subseteq> set (queues2 s))"
proof -
  from findBestFit_effect [OF assms(2)] show ?thesis
  proof
    assume "l = [] \<and> s1 = s"
    then show ?thesis by simp
  next
    assume popped: "free s = add_mset l (free s1) \<and> activeTickets s1 = activeTickets s
          \<and> set (queues0 s1) \<subseteq> set (queues0 s)
          \<and> set (queues1 s1) \<subseteq> set (queues1 s)
          \<and> set (queues2 s1) \<subseteq> set (queues2 s)"
    then have "l \<in># free s" by simp
    with assms(1) have l: "l \<in> set inventory" by (rule inv_free_inventory)
    then have "length l = 3" by (rule inventory_length)
    then have "l \<noteq> []" by auto
    with l popped show ?thesis by simp
  qed
qed

lemma deposit_popped:
  assumes "inv s" "findBestFit sz s = (l, s1)" "l \<noteq> []"
  shows "deposit sz now s =
    (Inr (mint l now), s1\<lparr>activeTickets := activeTickets s @ [(code (mint l now), mint l now)]\<rparr>)"
proof -
  from findBestFit_inv [OF assms(1,2)] assms(3)
  have fr: "free s = add_mset l (free s1)" and tab: "activeTickets s1 = activeTickets s"
    by simp_all
  from fr have "l \<in># free s" by simp
  with assms(1) have "code (mint l now) \<notin> fst ` set (activeTickets s)"
    by (rule inv_fresh_code)
  then have "AList.update (code (mint l now)) (mint l now) (activeTickets s)
      = activeTickets s @ [(code (mint l now), mint l now)]"
    by (rule update_fresh)
  with assms(2,3) tab show ?thesis by (simp add: deposit_def Let_def)
qed

lemma deposit_none:
  assumes "findBestFit sz s = ([], s1)"
  shows "deposit sz now s =
    (Inl (runtime_error (''No locker available for size '' @ sizeToString sz)), s1)"
  using assms by (simp add: deposit_def)

lemma inv_deposit:
  assumes "inv s"
  shows "inv (snd (deposit sz now s))"
proof -
  obtain l s1 where f: "findBestFit sz s = (l, s1)" by (cases "findBestFit sz s")
  show ?thesis
  proof (cases "l = []")
    case True
    with findBestFit_inv [OF assms f] have "s1 = s" by simp
    with True f assms show ?thesis by (simp add: deposit_none)
  next
    case False
    let ?k = "code (mint l now)"
    let ?s' = "s1\<lparr>activeTickets := activeTickets s @ [(?k, mint l now)]\<rparr>"
    from findBestFit_inv [OF assms f] False
    have fr: "free s = add_mset l (free s1)"
      and q0: "set (queues0 s1) \<subseteq> set (queues0 s)"
      and q1: "set (queues1 s1) \<subseteq> set (queues1 s)"
      and q2: "set (queues2 s1) \<subseteq> set (queues2 s)"
      by simp_all
    from fr have "l \<in># free s" by simp
    with assms have fresh: "?k \<notin> fst ` set (activeTickets s)" by (rule inv_fresh_code)
    have occ: "occupied ?s' = add_mset l (occupied s)"
      by (simp add: occupied_def mint_def)
    from assms have "free s + occupied s = mset inventory" by (simp add: inv_def)
    with fr occ have 1: "free ?s' + occupied ?s' = mset inventory" by simp
    from assms q0 q1 q2 have 2: "set (queues0 ?s') \<subseteq> set (seed ''S-'')"
      "set (queues1 ?s') \<subseteq> set (seed ''M-'')" "set (queues2 ?s') \<subseteq> set (seed ''L-'')"
      by (auto simp: inv_def)
    from assms fresh have 3: "distinct (map fst (activeTickets ?s'))"
      by (simp add: inv_def)
    from assms have 4: "list_all minted (activeTickets ?s')"
      by (simp add: inv_def minted_mint)
    from 1 2 3 4 have "inv ?s'" unfolding inv_def by blast
    with deposit_popped [OF assms f False] show ?thesis by simp
  qed
qed

lemma free_append:
  assumes "set E \<subseteq> set inventory"
  shows "free (s\<lparr>queues0 := queues0 s @ filter (starts CHR ''S'') E,
                  queues1 := queues1 s @ filter (starts CHR ''M'') E,
                  queues2 := queues2 s @ filter (starts CHR ''L'') E,
                  activeTickets := tab\<rparr>) = free s + mset E"
proof -
  have "free (s\<lparr>queues0 := queues0 s @ filter (starts CHR ''S'') E,
                  queues1 := queues1 s @ filter (starts CHR ''M'') E,
                  queues2 := queues2 s @ filter (starts CHR ''L'') E,
                  activeTickets := tab\<rparr>)
      = free s + (mset (filter (starts CHR ''S'') E) + mset (filter (starts CHR ''M'') E)
       + mset (filter (starts CHR ''L'') E))"
    by (simp add: free_def)
  with class_partition [OF assms] show ?thesis by simp
qed

lemma returnLocker_state:
  "returnLocker l s =
     s\<lparr>queues0 := queues0 s @ filter (starts CHR ''S'') [l],
       queues1 := queues1 s @ filter (starts CHR ''M'') [l],
       queues2 := queues2 s @ filter (starts CHR ''L'') [l],
       activeTickets := activeTickets s\<rparr>"
  by (rule state_eqI)
     (simp_all add: returnLocker_queues0 returnLocker_queues1 returnLocker_queues2
        returnLocker_activeTickets)

lemma append_class_subset:
  assumes "set E \<subseteq> set inventory"
  shows "set (filter (starts CHR ''S'') E) \<subseteq> set (seed ''S-'')"
    and "set (filter (starts CHR ''M'') E) \<subseteq> set (seed ''M-'')"
    and "set (filter (starts CHR ''L'') E) \<subseteq> set (seed ''L-'')"
  using assms inventory_S inventory_M inventory_L by auto

lemma inv_reclaim:
  assumes "inv s"
    and E: "set E \<subseteq> set inventory"
    and occ: "mset E + mset (map (\<lambda>e. lockerId (snd e)) tab) = occupied s"
    and sub: "set tab \<subseteq> set (activeTickets s)"
    and dist: "distinct (map fst tab)"
  shows "inv (s\<lparr>queues0 := queues0 s @ filter (starts CHR ''S'') E,
                 queues1 := queues1 s @ filter (starts CHR ''M'') E,
                 queues2 := queues2 s @ filter (starts CHR ''L'') E,
                 activeTickets := tab\<rparr>)" (is "inv ?s'")
proof -
  have f: "free ?s' = free s + mset E" by (rule free_append [OF E])
  have o: "occupied ?s' = mset (map (\<lambda>e. lockerId (snd e)) tab)"
    by (simp add: occupied_def)
  have "free ?s' + occupied ?s' = free s + (mset E + mset (map (\<lambda>e. lockerId (snd e)) tab))"
    by (simp only: f o add.assoc)
  also have "\<dots> = free s + occupied s" by (simp only: occ)
  also from assms(1) have "\<dots> = mset inventory" by (simp add: inv_def)
  finally have 1: "free ?s' + occupied ?s' = mset inventory" .
  from assms(1) append_class_subset [OF E]
  have 2: "set (queues0 ?s') \<subseteq> set (seed ''S-'')"
      "set (queues1 ?s') \<subseteq> set (seed ''M-'')" "set (queues2 ?s') \<subseteq> set (seed ''L-'')"
    by (simp_all add: inv_def)
  from dist have 3: "distinct (map fst (activeTickets ?s'))" by simp
  from assms(1) sub have 4: "list_all minted (activeTickets ?s')"
    by (auto simp: inv_def list_all_iff)
  from 1 2 3 4 show ?thesis unfolding inv_def by blast
qed

lemma pickup_found:
  assumes "map_of (activeTickets s) c = Some t"
  shows "pickup c s =
    (Inr (''Locker '' @ lockerId t @ '' opened. Package retrieved.''),
     s\<lparr>queues0 := queues0 s @ filter (starts CHR ''S'') [lockerId t],
       queues1 := queues1 s @ filter (starts CHR ''M'') [lockerId t],
       queues2 := queues2 s @ filter (starts CHR ''L'') [lockerId t],
       activeTickets := AList.delete c (activeTickets s)\<rparr>)"
  using assms by (simp add: pickup_def returnLocker_state)

lemma inv_pickup:
  assumes "inv s"
  shows "inv (snd (pickup c s))"
proof (cases "map_of (activeTickets s) c")
  case None
  with assms show ?thesis by (simp add: pickup_def)
next
  case (Some t)
  then have mem: "(c, t) \<in> set (activeTickets s)" by (rule map_of_SomeD)
  then have "lockerId t \<in># occupied s" using occupiedI [of "(c, t)" s] by simp
  with assms have "lockerId t \<in> set inventory" by (rule inv_occupied_inventory)
  then have E: "set [lockerId t] \<subseteq> set inventory" by simp
  from assms have dist: "distinct (map fst (activeTickets s))" by (simp add: inv_def)
  from mset_delete [OF dist mem]
  have "image_mset (\<lambda>e. lockerId (snd e)) (add_mset (c, t) (mset (AList.delete c (activeTickets s))))
      = image_mset (\<lambda>e. lockerId (snd e)) (mset (activeTickets s))"
    by simp
  then have occ: "mset [lockerId t] + mset (map (\<lambda>e. lockerId (snd e)) (AList.delete c (activeTickets s)))
      = occupied s"
    by (simp add: occupied_def)
  have sub: "set (AList.delete c (activeTickets s)) \<subseteq> set (activeTickets s)"
    by (auto simp: AList.delete_eq)
  from dist have "distinct (map fst (AList.delete c (activeTickets s)))"
    by (rule distinct_delete)
  from inv_reclaim [OF assms E occ sub this] show ?thesis
    by (simp only: pickup_found [OF Some] snd_conv)
qed

lemma inv_cleanup:
  assumes "inv s"
  shows "inv (snd (snd (cleanup now s)))"
proof -
  let ?tab = "filter (\<lambda>e. \<not> expired now (snd e)) (activeTickets s)"
  have "set (reclaimed now s) \<subseteq> set_mset (occupied s)"
    by (auto simp: reclaimed_def occupied_def)
  with assms have E: "set (reclaimed now s) \<subseteq> set inventory"
    by (blast intro: inv_occupied_inventory)
  have occ: "mset (reclaimed now s) + mset (map (\<lambda>e. lockerId (snd e)) ?tab) = occupied s"
    unfolding reclaimed_def occupied_def by (rule mset_split_expired)
  have sub: "set ?tab \<subseteq> set (activeTickets s)" by auto
  from assms have "distinct (map fst ?tab)"
    by (simp add: inv_def distinct_map_filter)
  from inv_reclaim [OF assms E occ sub this] show ?thesis
    by (simp only: cleanup_state)
qed

lemma inv_new: "inv new_LockerService"
  by (simp add: inv_def new_LockerService_def free_def occupied_def inventory_def)

lemma inv_exec: "inv s \<Longrightarrow> inv (exec c s)"
  by (cases c) (simp_all add: inv_deposit inv_pickup inv_cleanup)

lemma run_snoc: "run (cs @ [c]) = exec c (run cs)"
  by (simp add: run_def)

lemma inv_run: "inv (run cs)"
proof (induction cs rule: rev_induct)
  case Nil
  show ?case by (simp add: run_def inv_new)
next
  case (snoc c cs)
  then show ?case by (simp only: run_snoc inv_exec)
qed

lemma inv_distinct_lockers:
  assumes "inv s"
  shows "distinct (map (\<lambda>e. lockerId (snd e)) (activeTickets s))"
proof -
  let ?xs = "map (\<lambda>e. lockerId (snd e)) (activeTickets s)"
  from assms have eq: "free s + mset ?xs = mset inventory"
    by (simp add: inv_def occupied_def)
  have "count (mset ?xs) a = (if a \<in> set ?xs then 1 else 0)" for a
  proof (cases "a \<in> set ?xs")
    case True
    then have "1 \<le> count (mset ?xs) a" by (simp only: count_greater_eq_one_iff set_mset_mset)
    moreover have "count (mset ?xs) a \<le> count (free s + mset ?xs) a" by simp
    moreover have "count (mset inventory) a \<le> 1"
      using distinct_inventory by (simp add: distinct_count_atmost_1)
    then have "count (free s + mset ?xs) a \<le> 1" by (simp only: eq)
    ultimately have "count (mset ?xs) a = 1" by linarith
    with True show ?thesis by (simp only: if_True)
  next
    case False
    then have "count (mset ?xs) a = 0" by (simp only: count_mset_0_iff not_False_eq_True)
    with False show ?thesis by (simp only: if_False)
  qed
  then show ?thesis by (simp only: distinct_count_atmost_1) simp
qed

lemma inv_keys_are_codes:
  assumes "inv s"
  shows "map fst (activeTickets s) = map (\<lambda>e. code (snd e)) (activeTickets s)"
proof (rule map_cong [OF refl])
  fix e assume "e \<in> set (activeTickets s)"
  with assms have "minted e" by (simp add: inv_def list_all_iff)
  then show "fst e = code (snd e)" by (simp add: minted_def)
qed

lemma starts_other: "starts c l \<Longrightarrow> c \<noteq> d \<Longrightarrow> \<not> starts d l"
  by (auto simp: starts_def split: list.splits)

lemma class_filters:
  assumes "l \<in> set inventory"
  shows "l \<in> set (seed ''S-'') \<Longrightarrow>
           starts CHR ''S'' l \<and> \<not> starts CHR ''M'' l \<and> \<not> starts CHR ''L'' l"
    and "l \<in> set (seed ''M-'') \<Longrightarrow>
           \<not> starts CHR ''S'' l \<and> starts CHR ''M'' l \<and> \<not> starts CHR ''L'' l"
    and "l \<in> set (seed ''L-'') \<Longrightarrow>
           \<not> starts CHR ''S'' l \<and> \<not> starts CHR ''M'' l \<and> starts CHR ''L'' l"
proof -
  {
    assume "l \<in> set (seed ''S-'')"
    then have "starts CHR ''S'' l" by (simp only: inventory_S [OF assms])
    then show "starts CHR ''S'' l \<and> \<not> starts CHR ''M'' l \<and> \<not> starts CHR ''L'' l"
      by (simp add: starts_other [of "CHR ''S''"])
  next
    assume "l \<in> set (seed ''M-'')"
    then have "starts CHR ''M'' l" by (simp only: inventory_M [OF assms])
    then show "\<not> starts CHR ''S'' l \<and> starts CHR ''M'' l \<and> \<not> starts CHR ''L'' l"
      by (simp add: starts_other [of "CHR ''M''"])
  next
    assume "l \<in> set (seed ''L-'')"
    then have "starts CHR ''L'' l" by (simp only: inventory_L [OF assms])
    then show "\<not> starts CHR ''S'' l \<and> \<not> starts CHR ''M'' l \<and> starts CHR ''L'' l"
      by (simp add: starts_other [of "CHR ''L''"])
  }
qed

lemma pools_new:
  "pools new_LockerService = [seed ''S-'', seed ''M-'', seed ''L-'']"
  by (simp add: pools_def new_LockerService_def)

lemma run_Nil: "run [] = new_LockerService"
  by (simp add: run_def)

lemma pickup_after_deposit:
  assumes "inv s" "findBestFit X s = (l, s1)" "l \<noteq> []"
  shows "pickup (code (mint l now)) (snd (deposit X now s)) =
     (Inr (''Locker '' @ l @ '' opened. Package retrieved.''), returnLocker l s1)"
proof -
  let ?k = "code (mint l now)" and ?t = "mint l now"
  let ?tab = "activeTickets s"
  let ?u = "s1\<lparr>activeTickets := ?tab @ [(?k, ?t)]\<rparr>"
  from findBestFit_inv [OF assms(1,2)] assms(3)
  have fr: "free s = add_mset l (free s1)" and tab: "activeTickets s1 = ?tab"
    by simp_all
  from fr have "l \<in># free s" by simp
  with assms(1) have fresh: "?k \<notin> fst ` set ?tab" by (rule inv_fresh_code)
  then have none: "map_of ?tab ?k = None" by (simp add: map_of_eq_None_iff)
  have dep: "snd (deposit X now s) = ?u"
    by (simp add: deposit_popped [OF assms])
  have "map_of (?tab @ [(?k, ?t)]) ?k = Some ?t"
    by (simp add: map_add_def none)
  then have look: "map_of (activeTickets ?u) ?k = Some ?t" by simp
  have "AList.delete ?k (?tab @ [(?k, ?t)]) = AList.delete ?k ?tab"
    by (simp add: AList.delete_eq)
  also from fresh have "\<dots> = ?tab" by (rule delete_id)
  finally have del: "AList.delete ?k (activeTickets ?u) = activeTickets s1"
    by (simp add: tab)
  have restore: "?u\<lparr>activeTickets := AList.delete ?k (activeTickets ?u)\<rparr> = s1"
    by (simp only: del) simp
  have l: "lockerId ?t = l" by (simp add: mint_def)
  have "pickup ?k ?u =
      (Inr (''Locker '' @ lockerId ?t @ '' opened. Package retrieved.''),
       returnLocker (lockerId ?t) (?u\<lparr>activeTickets := AList.delete ?k (activeTickets ?u)\<rparr>))"
    by (simp only: pickup_def look option.case)
  then show ?thesis by (simp only: dep restore l)
qed

lemma returned_pool:
  assumes "inv s" "findBestFit X s = (l, s1)" "l \<noteq> []"
  shows "\<exists>i. sizeToInt X \<le> i \<and> i < 3
      \<and> l \<in> set (pools new_LockerService ! i)
      \<and> pools s ! i = l # tl (pools s ! i)
      \<and> pools s1 = (pools s)[i := tl (pools s ! i)]
      \<and> pools (returnLocker l s1) = (pools s)[i := tl (pools s ! i) @ [l]]
      \<and> activeTickets (returnLocker l s1) = activeTickets s"
proof -
  from findBestFit_inv [OF assms(1,2)] assms(3) have inv_l: "l \<in> set inventory" by simp
  from assms(1) have sub: "set (queues0 s) \<subseteq> set (seed ''S-'')"
    "set (queues1 s) \<subseteq> set (seed ''M-'')" "set (queues2 s) \<subseteq> set (seed ''L-'')"
    by (simp_all add: inv_def)
  note ret = returnLocker_queues0 returnLocker_queues1 returnLocker_queues2
    returnLocker_activeTickets
  from assms(2) show ?thesis
  proof (cases rule: findBestFit_cases)
    case none
    with assms(3) show ?thesis by simp
  next
    case q0
    from q0(2) obtain r where r: "queues0 s = l # r" by blast
    with q0(3) have s1: "s1 = s\<lparr>queues0 := r\<rparr>" by simp
    from r sub have m: "l \<in> set (seed ''S-'')" by simp
    note fl = class_filters(1) [OF inv_l m]
    have "pools s ! 0 = l # tl (pools s ! 0)
      \<and> pools s1 = (pools s)[0 := tl (pools s ! 0)]
      \<and> pools (returnLocker l s1) = (pools s)[0 := tl (pools s ! 0) @ [l]]
      \<and> activeTickets (returnLocker l s1) = activeTickets s"
      by (simp add: pools_def ret fl r s1)
    moreover have "sizeToInt X \<le> 0" using q0(1) by (simp add: sizeToInt_def)
    moreover have "l \<in> set (pools new_LockerService ! 0)" using m by (simp add: pools_new)
    ultimately show ?thesis by (intro exI [of _ 0]) simp
  next
    case q1
    from q1(3) obtain r where r: "queues1 s = l # r" by blast
    with q1(4) have s1: "s1 = s\<lparr>queues1 := r\<rparr>" by simp
    from r sub have m: "l \<in> set (seed ''M-'')" by simp
    note fl = class_filters(2) [OF inv_l m]
    have "pools s ! Suc 0 = l # tl (pools s ! Suc 0)
      \<and> pools s1 = (pools s)[Suc 0 := tl (pools s ! Suc 0)]
      \<and> pools (returnLocker l s1) = (pools s)[Suc 0 := tl (pools s ! Suc 0) @ [l]]
      \<and> activeTickets (returnLocker l s1) = activeTickets s"
      by (simp add: pools_def ret fl r s1)
    moreover from q1(1) have "sizeToInt X \<le> Suc 0" by (cases X) (simp_all add: sizeToInt_def)
    moreover have "l \<in> set (pools new_LockerService ! Suc 0)" using m by (simp add: pools_new)
    ultimately show ?thesis by (intro exI [of _ "Suc 0"]) simp
  next
    case q2
    from q2(3) obtain r where r: "queues2 s = l # r" by blast
    with q2(4) have s1: "s1 = s\<lparr>queues2 := r\<rparr>" by simp
    from r sub have m: "l \<in> set (seed ''L-'')" by simp
    note fl = class_filters(3) [OF inv_l m]
    have "pools s ! Suc (Suc 0) = l # tl (pools s ! Suc (Suc 0))
      \<and> pools s1 = (pools s)[Suc (Suc 0) := tl (pools s ! Suc (Suc 0))]
      \<and> pools (returnLocker l s1) = (pools s)[Suc (Suc 0) := tl (pools s ! Suc (Suc 0)) @ [l]]
      \<and> activeTickets (returnLocker l s1) = activeTickets s"
      by (simp add: pools_def ret fl r s1)
    moreover have "sizeToInt X \<le> Suc (Suc 0)" by (cases X) (simp_all add: sizeToInt_def)
    moreover have "l \<in> set (pools new_LockerService ! Suc (Suc 0))"
      using m by (simp add: pools_new)
    ultimately show ?thesis by (intro exI [of _ "Suc (Suc 0)"]) simp
  qed
qed

lemma inv_no_empty_locker:
  assumes "inv s"
  shows "[] \<notin> set (queues0 s)" "[] \<notin> set (queues1 s)" "[] \<notin> set (queues2 s)"
proof -
  have "[] \<notin># free s"
  proof
    assume "[] \<in># free s"
    with assms have "[] \<in> set inventory" by (rule inv_free_inventory)
    then have "length ([] :: string) = 3" by (rule inventory_length)
    then show False by simp
  qed
  then show "[] \<notin> set (queues0 s)" "[] \<notin> set (queues1 s)" "[] \<notin> set (queues2 s)"
    by (simp_all add: free_def)
qed

lemma findBestFit_empty:
  assumes "inv s" "findBestFit X s = ([], s1)"
  shows "\<forall>q\<in>set (drop (sizeToInt X) (pools s)). q = []"
  using assms(2)
proof (cases rule: findBestFit_cases)
  case none
  then show ?thesis by simp
next
  case q0
  have "[] \<in> set (queues0 s)" by (subst q0(2)) simp
  with inv_no_empty_locker(1) [OF assms(1)] show ?thesis by simp
next
  case q1
  have "[] \<in> set (queues1 s)" by (subst q1(3)) simp
  with inv_no_empty_locker(2) [OF assms(1)] show ?thesis by simp
next
  case q2
  have "[] \<in> set (queues2 s)" by (subst q2(3)) simp
  with inv_no_empty_locker(3) [OF assms(1)] show ?thesis by simp
qed

subsection \<open>Expiry\<close>

lemma sint_threeDays: "sint threeDaysInMillis = 259200000"
  by (simp add: threeDaysInMillis_def)

lemma expired_boundary:
  "\<not> expired (creationTime t + threeDaysInMillis - 1) t"
  "\<not> expired (creationTime t + threeDaysInMillis) t"
  "expired (creationTime t + threeDaysInMillis + 1) t"
proof -
  have a: "creationTime t + threeDaysInMillis - 1 - creationTime t = threeDaysInMillis - 1"
    by simp
  have b: "creationTime t + threeDaysInMillis - creationTime t = threeDaysInMillis"
    by simp
  have c: "creationTime t + threeDaysInMillis + 1 - creationTime t = threeDaysInMillis + 1"
    by simp
  show "\<not> expired (creationTime t + threeDaysInMillis - 1) t"
    unfolding expired_def a by (simp add: threeDaysInMillis_def word_sless_alt)
  show "\<not> expired (creationTime t + threeDaysInMillis) t"
    unfolding expired_def b by simp
  show "expired (creationTime t + threeDaysInMillis + 1) t"
    unfolding expired_def c by (simp add: threeDaysInMillis_def word_sless_alt)
qed

lemma expired_age:
  assumes "- (2 ^ 63) \<le> sint now - sint (creationTime t)"
    and "sint now - sint (creationTime t) < 2 ^ 63"
  shows "expired now t = (259200000 < sint now - sint (creationTime t))"
proof -
  have "sint (now - creationTime t) = signed_take_bit 63 (sint now - sint (creationTime t))"
    by (simp add: sint_word_ariths)
  also from assms have "\<dots> = sint now - sint (creationTime t)"
    by (simp add: signed_take_bit_int_eq_self)
  finally show ?thesis
    by (simp add: expired_def word_sless_alt sint_threeDays)
qed

lemma cleanup_pools:
  assumes "inv s"
  shows "pools (snd (snd (cleanup now s))) =
     map (\<lambda>i. pools s ! i @ filter (\<lambda>l. l \<in> set (pools new_LockerService ! i)) (reclaimed now s))
       [0, 1, 2]"
proof -
  have "set (reclaimed now s) \<subseteq> set_mset (occupied s)"
    by (auto simp: reclaimed_def occupied_def)
  with assms have E: "\<And>l. l \<in> set (reclaimed now s) \<Longrightarrow> l \<in> set inventory"
    by (blast intro: inv_occupied_inventory)
  have S: "filter (starts CHR ''S'') (reclaimed now s)
      = filter (\<lambda>l. l \<in> set (seed ''S-'')) (reclaimed now s)"
    by (rule filter_cong [OF refl]) (simp add: inventory_S [OF E])
  have M: "filter (starts CHR ''M'') (reclaimed now s)
      = filter (\<lambda>l. l \<in> set (seed ''M-'')) (reclaimed now s)"
    by (rule filter_cong [OF refl]) (simp add: inventory_M [OF E])
  have L: "filter (starts CHR ''L'') (reclaimed now s)
      = filter (\<lambda>l. l \<in> set (seed ''L-'')) (reclaimed now s)"
    by (rule filter_cong [OF refl]) (simp add: inventory_L [OF E])
  show ?thesis
    by (simp add: cleanup_state pools_new S M L) (simp add: pools_def)
qed

subsection \<open>Evaluating concrete runs\<close>

lemma to_string_evals:
  "to_string 1000 = ''1000''" "to_string 2000 = ''2000''" "to_string 5000 = ''5000''"
  by (simp_all add: to_string_def nat_digits.simps digit_char_def)

lemma smod_evals:
  "sint (1000 :: 64 word) smod 10000 = 1000" "sint (2000 :: 64 word) smod 10000 = 2000"
  "sint (5000 :: 64 word) smod 10000 = 5000"
  by (simp_all add: signed_modulo_int_def)

lemma mint_evals:
  "mint l 1000 = \<lparr>lockerId = l, code = l @ ''-1000'', creationTime = 1000\<rparr>"
  "mint l 2000 = \<lparr>lockerId = l, code = l @ ''-2000'', creationTime = 2000\<rparr>"
  "mint l 5000 = \<lparr>lockerId = l, code = l @ ''-5000'', creationTime = 5000\<rparr>"
  by (simp_all add: mint_def smod_evals to_string_evals)

lemmas eval_defs = run_def new_LockerService_def seed_S seed_M seed_L deposit_def
  findBestFit_def pop0_def pop1_def pop2_def Let_def mint_evals pickup_def returnLocker_def

lemma returnLocker_pools:
  assumes "l \<in> set inventory"
  shows "\<exists>i. i < 3 \<and> l \<in> set (pools new_LockerService ! i)
      \<and> pools (returnLocker l s) = (pools s)[i := pools s ! i @ [l]]"
proof -
  note ret = returnLocker_queues0 returnLocker_queues1 returnLocker_queues2
  from assms consider "l \<in> set (seed ''S-'')" | "l \<in> set (seed ''M-'')" | "l \<in> set (seed ''L-'')"
    by (auto simp: inventory_def)
  then show ?thesis
  proof cases
    case 1
    note fl = class_filters(1) [OF assms 1]
    have "pools (returnLocker l s) = (pools s)[0 := pools s ! 0 @ [l]]"
      by (simp add: pools_def ret fl)
    with 1 show ?thesis by (intro exI [of _ 0]) (simp add: pools_new)
  next
    case 2
    note fl = class_filters(2) [OF assms 2]
    have "pools (returnLocker l s) = (pools s)[Suc 0 := pools s ! Suc 0 @ [l]]"
      by (simp add: pools_def ret fl)
    with 2 show ?thesis by (intro exI [of _ "Suc 0"]) (simp add: pools_new)
  next
    case 3
    note fl = class_filters(3) [OF assms 3]
    have "pools (returnLocker l s) = (pools s)[Suc (Suc 0) := pools s ! Suc (Suc 0) @ [l]]"
      by (simp add: pools_def ret fl)
    with 3 show ?thesis by (intro exI [of _ "Suc (Suc 0)"]) (simp add: pools_new)
  qed
qed

lemma pools_tickets_update [simp]: "pools (s\<lparr>activeTickets := tab\<rparr>) = pools s"
  by (simp add: pools_def)

lemma deposit_takes_front:
  assumes "deposit sz now s = (Inr t, s')"
  shows "\<exists>i. sizeToInt sz \<le> i \<and> i < 3
      \<and> (\<forall>j. sizeToInt sz \<le> j \<and> j < i \<longrightarrow> pools s ! j = [])
      \<and> pools s ! i = lockerId t # tl (pools s ! i)
      \<and> pools s' = (pools s)[i := tl (pools s ! i)]"
proof -
  obtain l s1 where f: "findBestFit sz s = (l, s1)" by (cases "findBestFit sz s")
  with assms have ne: "l \<noteq> []" and t: "lockerId t = l" and s': "pools s' = pools s1"
    by (auto simp: deposit_def Let_def mint_def split: if_splits)
  from f show ?thesis
  proof (cases rule: findBestFit_cases)
    case none
    with ne show ?thesis by simp
  next
    case q0
    from q0(2) obtain r where r: "queues0 s = l # r" by blast
    with q0(3) have s1: "s1 = s\<lparr>queues0 := r\<rparr>" by simp
    have "sizeToInt sz \<le> 0 \<and> (0::nat) < 3
      \<and> (\<forall>j. sizeToInt sz \<le> j \<and> j < 0 \<longrightarrow> pools s ! j = [])
      \<and> pools s ! 0 = lockerId t # tl (pools s ! 0)
      \<and> pools s' = (pools s)[0 := tl (pools s ! 0)]"
      using q0(1) unfolding s' by (simp add: s1 t r pools_def sizeToInt_def)
    then show ?thesis by blast
  next
    case q1
    from q1(3) obtain r where r: "queues1 s = l # r" by blast
    with q1(4) have s1: "s1 = s\<lparr>queues1 := r\<rparr>" by simp
    have below: "pools s ! j = []" if "sizeToInt sz \<le> j" "j < Suc 0" for j
    proof -
      from that have "j = 0" and "sz = SMALL" by (cases sz; simp add: sizeToInt_def)+
      with q1(2) show ?thesis by (simp add: pools_def)
    qed
    from q1(1) have le: "sizeToInt sz \<le> Suc 0" by (cases sz) (simp_all add: sizeToInt_def)
    have "pools s ! Suc 0 = lockerId t # tl (pools s ! Suc 0)
      \<and> pools s' = (pools s)[Suc 0 := tl (pools s ! Suc 0)]"
      unfolding s' by (simp add: s1 t r pools_def)
    with le below show ?thesis by (intro exI [of _ "Suc 0"]) simp
  next
    case q2
    from q2(3) obtain r where r: "queues2 s = l # r" by blast
    with q2(4) have s1: "s1 = s\<lparr>queues2 := r\<rparr>" by simp
    have below: "pools s ! j = []" if "sizeToInt sz \<le> j" "j < Suc (Suc 0)" for j
    proof (cases sz)
      case SMALL
      with q2(1,2) that(2) show ?thesis by (cases j) (simp_all add: pools_def)
    next
      case MEDIUM
      with that have "j = Suc 0" by (simp add: sizeToInt_def)
      with MEDIUM q2(2) show ?thesis by (simp add: pools_def)
    next
      case LARGE
      with that show ?thesis by (simp add: sizeToInt_def)
    qed
    have le: "sizeToInt sz \<le> Suc (Suc 0)" by (cases sz) (simp_all add: sizeToInt_def)
    have "pools s ! Suc (Suc 0) = lockerId t # tl (pools s ! Suc (Suc 0))
      \<and> pools s' = (pools s)[Suc (Suc 0) := tl (pools s ! Suc (Suc 0))]"
      unfolding s' by (simp add: s1 t r pools_def)
    with le below show ?thesis by (intro exI [of _ "Suc (Suc 0)"]) simp
  qed
qed

lemma pickup_appends:
  assumes "inv s" "pickup c s = (Inr m, s')"
  shows "\<exists>t i. map_of (activeTickets s) c = Some t \<and> i < 3
      \<and> lockerId t \<in> set (pools new_LockerService ! i)
      \<and> pools s' = (pools s)[i := pools s ! i @ [lockerId t]]"
proof (cases "map_of (activeTickets s) c")
  case None
  with assms(2) show ?thesis by (simp add: pickup_def)
next
  case (Some t)
  then have "(c, t) \<in> set (activeTickets s)" by (rule map_of_SomeD)
  then have "lockerId t \<in># occupied s" using occupiedI [of "(c, t)" s] by simp
  with assms(1) have "lockerId t \<in> set inventory" by (rule inv_occupied_inventory)
  from returnLocker_pools [OF this, of "s\<lparr>activeTickets := AList.delete c (activeTickets s)\<rparr>"]
  obtain i where i: "i < 3" "lockerId t \<in> set (pools new_LockerService ! i)"
    "pools (returnLocker (lockerId t) (s\<lparr>activeTickets := AList.delete c (activeTickets s)\<rparr>))
      = (pools s)[i := pools s ! i @ [lockerId t]]"
    by auto
  from assms(2) Some
  have "s' = returnLocker (lockerId t) (s\<lparr>activeTickets := AList.delete c (activeTickets s)\<rparr>)"
    by (simp add: pickup_def)
  with i Some show ?thesis by blast
qed

lemma inv_key_determines_entry:
  assumes "inv s" "e \<in> set (activeTickets s)" "x \<in> set (activeTickets s)" "fst x = fst e"
  shows "x = e"
proof -
  from assms(1) have "distinct (map fst (activeTickets s))" by (simp add: inv_def)
  then have "inj_on fst (set (activeTickets s))" by (simp add: distinct_map)
  with assms(2-4) show ?thesis by (auto dest: inj_onD)
qed

section \<open>The claims\<close>

text \<open>Claim C1 (conservation). After every sequence of \<^verbatim>\<open>deposit\<close>, \<^verbatim>\<open>pickup\<close> and
  \<^verbatim>\<open>cleanup\<close> calls on a freshly constructed service, whether the calls succeed or
  throw and whatever the clock reads, the lockers free in the three pools together with
  the lockers of the active tickets are, as a multiset, the thirty lockers the
  constructor seeded.\<close>

theorem conservation:
  "free (run cs) + occupied (run cs) = mset inventory
   \<and> mset inventory = free (run []) + occupied (run [])
   \<and> size (free (run cs) + occupied (run cs)) = 30"
proof -
  from inv_run [of cs] have a: "free (run cs) + occupied (run cs) = mset inventory"
    by (simp add: inv_def)
  from inv_run [of "[]"] have b: "mset inventory = free (run []) + occupied (run [])"
    by (simp add: inv_def)
  have "size (mset inventory) = 30"
    by (simp add: inventory_def seed_S seed_M seed_L)
  with a b show ?thesis by simp
qed

text \<open>Claim C2 (best fit upward). In every state a run reaches in which the SMALL pool is
  empty and the MEDIUM pool is not, \<^verbatim>\<open>deposit(SMALL)\<close> succeeds; the ticket it returns names
  the locker at the front of the MEDIUM pool, which is one of the seeded MEDIUM lockers;
  that locker leaves the MEDIUM pool and the LARGE pool is not touched.\<close>

theorem best_fit_upward:
  assumes "queues0 (run cs) = []" and "queues1 (run cs) \<noteq> []"
  shows "deposit SMALL now (run cs) =
      (Inr (mint (hd (queues1 (run cs))) now),
       (run cs)\<lparr>queues1 := tl (queues1 (run cs)),
         activeTickets := activeTickets (run cs) @
           [(code (mint (hd (queues1 (run cs))) now), mint (hd (queues1 (run cs))) now)]\<rparr>)
    \<and> lockerId (mint (hd (queues1 (run cs))) now) = hd (queues1 (run cs))
    \<and> hd (queues1 (run cs)) \<in> set (seed ''M-'')
    \<and> queues1 (snd (deposit SMALL now (run cs))) = tl (queues1 (run cs))
    \<and> queues2 (snd (deposit SMALL now (run cs))) = queues2 (run cs)"
proof -
  let ?s = "run cs"
  let ?l = "hd (queues1 ?s)"
  have inv: "inv ?s" by (rule inv_run)
  from assms have f: "findBestFit SMALL ?s = (?l, ?s\<lparr>queues1 := tl (queues1 ?s)\<rparr>)"
    by (simp add: findBestFit_def pop1_def)
  from assms(2) have mem: "?l \<in> set (queues1 ?s)" by simp
  with inv have m: "?l \<in> set (seed ''M-'')" by (auto simp: inv_def)
  then have "length ?l = 3" by (simp add: inventory_length inventory_def)
  then have ne: "?l \<noteq> []" by auto
  have dep: "deposit SMALL now ?s =
      (Inr (mint ?l now),
       ?s\<lparr>queues1 := tl (queues1 ?s),
         activeTickets := activeTickets ?s @ [(code (mint ?l now), mint ?l now)]\<rparr>)"
    using deposit_popped [OF inv f ne, of now] by simp
  have "lockerId (mint ?l now) = ?l" by (simp add: mint_def)
  with dep m show ?thesis by simp
qed

theorem best_fit_upward_witness:
  "queues0 (run (replicate 10 (Deposit SMALL 1000))) = []
   \<and> queues1 (run (replicate 10 (Deposit SMALL 1000))) = seed ''M-''
   \<and> fst (deposit SMALL 2000 (run (replicate 10 (Deposit SMALL 1000)))) =
       Inr \<lparr>lockerId = ''M-0'', code = ''M-0-2000'', creationTime = 2000\<rparr>
   \<and> queues1 (snd (deposit SMALL 2000 (run (replicate 10 (Deposit SMALL 1000))))) = tl (seed ''M-'')
   \<and> queues2 (snd (deposit SMALL 2000 (run (replicate 10 (Deposit SMALL 1000))))) = seed ''L-''"
proof -
  let ?W = "run (replicate 10 (Deposit SMALL 1000))"
  have q0: "queues0 ?W = []" by code_simp
  have q1: "queues1 ?W = seed ''M-''" by code_simp
  have q2: "queues2 ?W = seed ''L-''" by code_simp
  have ne: "queues1 ?W \<noteq> []" by (simp add: q1 seed_M)
  have m: "mint ''M-0'' 2000 = \<lparr>lockerId = ''M-0'', code = ''M-0-2000'', creationTime = 2000\<rparr>"
    by code_simp
  have h: "hd (seed ''M-'') = ''M-0''" by (simp add: seed_M)
  from best_fit_upward [OF q0 ne, of 2000] show ?thesis
    by (simp add: q0 q1 q2 m h)
qed

text \<open>Claim C3 (no downward fallback, failure atomicity). For every state in which the
  pool of the requested class and all pools of larger classes are empty, \<^verbatim>\<open>deposit\<close> throws
  \<^verbatim>\<open>std::runtime_error\<close> with a message that ends in the name of the requested class, and
  leaves the pools and the table unchanged. For LARGE only the LARGE pool counts, whatever
  the SMALL and MEDIUM pools hold. The class names are pairwise different, so the message
  identifies the class.\<close>

theorem deposit_no_capacity:
  "((\<forall>q\<in>set (drop (sizeToInt sz) (pools s)). q = []) \<longrightarrow>
      deposit sz now s =
        (Inl (runtime_error (''No locker available for size '' @ sizeToString sz)), s))
   \<and> (queues2 s = [] \<longrightarrow>
      deposit LARGE now s = (Inl (runtime_error ''No locker available for size LARGE''), s))
   \<and> inj sizeToString"
proof (intro conjI impI)
  assume "\<forall>q\<in>set (drop (sizeToInt sz) (pools s)). q = []"
  then have "findBestFit sz s = ([], s)"
    by (cases sz) (simp_all add: findBestFit_def pools_def sizeToInt_def)
  then show "deposit sz now s =
        (Inl (runtime_error (''No locker available for size '' @ sizeToString sz)), s)"
    by (simp add: deposit_def)
next
  assume "queues2 s = []"
  then have "findBestFit LARGE s = ([], s)"
    by (simp add: findBestFit_def)
  then show "deposit LARGE now s = (Inl (runtime_error ''No locker available for size LARGE''), s)"
    by (simp add: deposit_def sizeToString_def)
next
  show "inj sizeToString"
  proof (rule injI)
    fix a b assume "sizeToString a = sizeToString b"
    then show "a = b" by (cases a; cases b) (simp_all add: sizeToString_def)
  qed
qed

theorem deposit_no_capacity_witness:
  "queues0 (run (replicate 10 (Deposit LARGE 1000))) \<noteq> []
   \<and> queues1 (run (replicate 10 (Deposit LARGE 1000))) \<noteq> []
   \<and> queues2 (run (replicate 10 (Deposit LARGE 1000))) = []
   \<and> drop (sizeToInt LARGE) (pools (run (replicate 10 (Deposit LARGE 1000)))) = [[]]
   \<and> deposit LARGE 2000 (run (replicate 10 (Deposit LARGE 1000))) =
       (Inl (runtime_error ''No locker available for size LARGE''),
        run (replicate 10 (Deposit LARGE 1000)))"
proof -
  let ?W = "run (replicate 10 (Deposit LARGE 1000))"
  have q0: "queues0 ?W \<noteq> []" by code_simp
  have q1: "queues1 ?W \<noteq> []" by code_simp
  have q2: "queues2 ?W = []" by code_simp
  have h: "\<forall>q\<in>set (drop (sizeToInt LARGE) (pools ?W)). q = []"
    by (simp add: sizeToInt_def pools_def q2)
  have d: "drop (sizeToInt LARGE) (pools ?W) = [[]]"
    by (simp add: sizeToInt_def pools_def q2)
  from deposit_no_capacity [of LARGE ?W 2000] h q0 q1 q2 d show ?thesis
    by (simp add: sizeToString_def)
qed

text \<open>Claim C4 (round trip). In every state a run reaches in which some candidate pool
  for class \<open>X\<close> holds a free locker, \<^verbatim>\<open>deposit(X)\<close> succeeds, and the \<^verbatim>\<open>pickup\<close> of the
  returned ticket's code right after it succeeds too and confirms the allocated locker.
  The locker was the front of a candidate pool, it is one of the lockers the constructor
  seeded into that pool, and it comes back at the tail of that same pool. Every pool holds
  the same multiset of lockers as before the deposit, and the ticket table is the one
  before the deposit.\<close>

theorem round_trip:
  assumes "concat (drop (sizeToInt X) (pools (run cs))) \<noteq> []"
  shows "\<exists>t s1 s2 i.
      deposit X now (run cs) = (Inr t, s1)
      \<and> pickup (code t) s1 = (Inr (''Locker '' @ lockerId t @ '' opened. Package retrieved.''), s2)
      \<and> sizeToInt X \<le> i \<and> i < 3
      \<and> lockerId t \<in> set (pools (run []) ! i)
      \<and> pools (run cs) ! i = lockerId t # tl (pools (run cs) ! i)
      \<and> pools s2 = (pools (run cs))[i := tl (pools (run cs) ! i) @ [lockerId t]]
      \<and> map mset (pools s2) = map mset (pools (run cs))
      \<and> activeTickets s2 = activeTickets (run cs)"
proof -
  let ?s = "run cs"
  have inv: "inv ?s" by (rule inv_run)
  obtain l s1 where f: "findBestFit X ?s = (l, s1)" by (cases "findBestFit X ?s")
  have ne: "l \<noteq> []"
  proof
    assume "l = []"
    with f have "findBestFit X ?s = ([], s1)" by simp
    from findBestFit_empty [OF inv this]
    have "concat (drop (sizeToInt X) (pools ?s)) = []" by simp
    with assms show False by simp
  qed
  let ?t = "mint l now"
  let ?s1 = "s1\<lparr>activeTickets := activeTickets ?s @ [(code ?t, ?t)]\<rparr>"
  have l: "lockerId ?t = l" by (simp add: mint_def)
  have dep: "deposit X now ?s = (Inr ?t, ?s1)" by (rule deposit_popped [OF inv f ne])
  have "pickup (code ?t) (snd (deposit X now ?s)) =
      (Inr (''Locker '' @ l @ '' opened. Package retrieved.''), returnLocker l s1)"
    by (rule pickup_after_deposit [OF inv f ne])
  then have pick: "pickup (code ?t) ?s1 =
      (Inr (''Locker '' @ lockerId ?t @ '' opened. Package retrieved.''), returnLocker l s1)"
    by (simp only: dep snd_conv l)
  from returned_pool [OF inv f ne] obtain i where i: "sizeToInt X \<le> i" "i < 3"
    "l \<in> set (pools new_LockerService ! i)"
    "pools ?s ! i = l # tl (pools ?s ! i)"
    "pools (returnLocker l s1) = (pools ?s)[i := tl (pools ?s ! i) @ [l]]"
    "activeTickets (returnLocker l s1) = activeTickets ?s"
    by blast
  have len: "i < length (pools ?s)" using i(2) by (simp add: pools_def)
  have "mset (tl (pools ?s ! i) @ [l]) = mset (l # tl (pools ?s ! i))" by simp
  also have "\<dots> = mset (pools ?s ! i)" by (simp only: i(4) [symmetric])
  also have "\<dots> = map mset (pools ?s) ! i" by (simp only: nth_map [OF len])
  finally have same: "mset (tl (pools ?s ! i) @ [l]) = map mset (pools ?s) ! i" .
  have "map mset (pools (returnLocker l s1)) = (map mset (pools ?s))[i := map mset (pools ?s) ! i]"
    by (simp only: i(5) map_update same)
  then have ms: "map mset (pools (returnLocker l s1)) = map mset (pools ?s)"
    by (simp only: list_update_id)
  from dep pick i ms l show ?thesis
    by (intro exI [of _ ?t] exI [of _ ?s1] exI [of _ "returnLocker l s1"] exI [of _ i])
       (simp add: run_Nil)
qed

theorem round_trip_witness:
  "concat (drop (sizeToInt SMALL) (pools (run (replicate 10 (Deposit SMALL 1000))))) \<noteq> []
   \<and> (\<exists>t s1 s2 i.
      deposit SMALL 2000 (run (replicate 10 (Deposit SMALL 1000))) = (Inr t, s1)
      \<and> pickup (code t) s1 = (Inr (''Locker '' @ lockerId t @ '' opened. Package retrieved.''), s2)
      \<and> sizeToInt SMALL \<le> i \<and> i < 3
      \<and> lockerId t \<in> set (pools (run []) ! i)
      \<and> pools (run (replicate 10 (Deposit SMALL 1000))) ! i
          = lockerId t # tl (pools (run (replicate 10 (Deposit SMALL 1000))) ! i)
      \<and> pools s2 = (pools (run (replicate 10 (Deposit SMALL 1000))))
          [i := tl (pools (run (replicate 10 (Deposit SMALL 1000))) ! i) @ [lockerId t]]
      \<and> map mset (pools s2) = map mset (pools (run (replicate 10 (Deposit SMALL 1000))))
      \<and> activeTickets s2 = activeTickets (run (replicate 10 (Deposit SMALL 1000))))
   \<and> pools (run (replicate 10 (Deposit SMALL 1000))) = [[], seed ''M-'', seed ''L-'']
   \<and> pools (snd (pickup ''M-0-2000'' (snd (deposit SMALL 2000 (run (replicate 10 (Deposit SMALL 1000)))))))
       = [[], tl (seed ''M-'') @ [''M-0''], seed ''L-'']"
proof -
  let ?W = "run (replicate 10 (Deposit SMALL 1000))"
  have p: "pools ?W = [[], seed ''M-'', seed ''L-'']" by code_simp
  have h: "concat (drop (sizeToInt SMALL) (pools ?W)) \<noteq> []"
    by (simp add: p sizeToInt_def seed_M)
  have e: "pools (snd (pickup ''M-0-2000'' (snd (deposit SMALL 2000 ?W))))
       = [[], tl (seed ''M-'') @ [''M-0''], seed ''L-'']"
    by code_simp
  from h round_trip [OF h, of 2000] p e show ?thesis by (intro conjI)
qed

text \<open>Claim C5 (invalid code rejected). For every state and every code that is not a key
  of the ticket table, \<^verbatim>\<open>pickup\<close> throws \<^verbatim>\<open>std::invalid_argument\<close> naming the code, returns no
  confirmation and leaves the pools and the table as they were. A code that has just been
  presented is no key afterwards, so presenting it again is rejected the same way. In a
  state a run reaches, the code of a ticket that a sweep has just expired is rejected
  the same way.\<close>

theorem pickup_invalid_code:
  "(c \<notin> fst ` set (activeTickets s) \<longrightarrow>
      pickup c s = (Inl (invalid_argument (''Invalid or expired code: '' @ c)), s))
   \<and> fst (pickup c (snd (pickup c s))) = Inl (invalid_argument (''Invalid or expired code: '' @ c))
   \<and> (e \<in> set (activeTickets (run cs)) \<and> expired now (snd e) \<longrightarrow>
      pickup (fst e) (snd (snd (cleanup now (run cs)))) =
        (Inl (invalid_argument (''Invalid or expired code: '' @ fst e)),
         snd (snd (cleanup now (run cs)))))"
proof -
  have a: "pickup c s' = (Inl (invalid_argument (''Invalid or expired code: '' @ c)), s')"
    if "c \<notin> fst ` set (activeTickets s')" for c s'
  proof -
    from that have "map_of (activeTickets s') c = None"
      by (simp add: map_of_eq_None_iff)
    then show ?thesis by (simp add: pickup_def)
  qed
  have b: "c \<notin> fst ` set (activeTickets (snd (pickup c s)))"
  proof (cases "map_of (activeTickets s) c")
    case None
    then have "snd (pickup c s) = s" by (simp add: pickup_def)
    moreover from None have "c \<notin> fst ` set (activeTickets s)"
      by (simp add: map_of_eq_None_iff)
    ultimately show ?thesis by simp
  next
    case (Some t)
    then show ?thesis
      by (simp add: pickup_def returnLocker_activeTickets delete_notin_dom)
  qed
  have c: "fst e \<notin> fst ` set (activeTickets (snd (snd (cleanup now (run cs)))))"
    if e: "e \<in> set (activeTickets (run cs))" and ex: "expired now (snd e)"
  proof
    assume "fst e \<in> fst ` set (activeTickets (snd (snd (cleanup now (run cs)))))"
    then obtain x where x: "x \<in> set (activeTickets (run cs))" "\<not> expired now (snd x)"
      "fst x = fst e"
      by (auto simp: cleanup_state)
    from inv_key_determines_entry [OF inv_run e x(1,3)] x(2) ex show False by simp
  qed
  from a [OF b]
  have "fst (pickup c (snd (pickup c s))) = Inl (invalid_argument (''Invalid or expired code: '' @ c))"
    by simp
  with a [OF c] a [of c s] show ?thesis by blast
qed

theorem pickup_invalid_code_witness:
  "''S-0-9999'' \<notin> fst ` set (activeTickets (run [Deposit SMALL 1000]))
   \<and> pickup ''S-0-9999'' (run [Deposit SMALL 1000]) =
       (Inl (invalid_argument ''Invalid or expired code: S-0-9999''), run [Deposit SMALL 1000])
   \<and> fst (pickup ''S-0-1000'' (snd (pickup ''S-0-1000'' (run [Deposit SMALL 1000])))) =
       Inl (invalid_argument ''Invalid or expired code: S-0-1000'')
   \<and> (''S-0-1000'', \<lparr>lockerId = ''S-0'', code = ''S-0-1000'', creationTime = 1000\<rparr>)
       \<in> set (activeTickets (run [Deposit SMALL 1000]))
   \<and> expired 259201001 \<lparr>lockerId = ''S-0'', code = ''S-0-1000'', creationTime = 1000\<rparr>
   \<and> pickup ''S-0-1000'' (snd (snd (cleanup 259201001 (run [Deposit SMALL 1000])))) =
       (Inl (invalid_argument ''Invalid or expired code: S-0-1000''),
        snd (snd (cleanup 259201001 (run [Deposit SMALL 1000]))))"
proof -
  let ?t = "\<lparr>lockerId = ''S-0'', code = ''S-0-1000'', creationTime = 1000\<rparr>"
  have tab: "activeTickets (run [Deposit SMALL 1000]) = [(''S-0-1000'', ?t)]"
    by (simp add: eval_defs)
  have h: "''S-0-9999'' \<notin> fst ` set (activeTickets (run [Deposit SMALL 1000]))"
    by (simp add: tab)
  have m: "(''S-0-1000'', ?t) \<in> set (activeTickets (run [Deposit SMALL 1000]))"
    by (simp add: tab)
  have x: "expired 259201001 ?t" by (simp add: expired_def threeDaysInMillis_def)
  note T = pickup_invalid_code [where s = "run [Deposit SMALL 1000]" and cs = "[Deposit SMALL 1000]"
      and now = 259201001 and e = "(''S-0-1000'', ?t)"]
  from T [where c = "''S-0-9999''"] h
  have 1: "pickup ''S-0-9999'' (run [Deposit SMALL 1000]) =
       (Inl (invalid_argument ''Invalid or expired code: S-0-9999''), run [Deposit SMALL 1000])"
    by simp
  from T [where c = "''S-0-1000''"]
  have 2: "fst (pickup ''S-0-1000'' (snd (pickup ''S-0-1000'' (run [Deposit SMALL 1000])))) =
       Inl (invalid_argument ''Invalid or expired code: S-0-1000'')"
    by simp
  from T [where c = "''S-0-1000''"] m x
  have 3: "pickup ''S-0-1000'' (snd (snd (cleanup 259201001 (run [Deposit SMALL 1000])))) =
       (Inl (invalid_argument ''Invalid or expired code: S-0-1000''),
        snd (snd (cleanup 259201001 (run [Deposit SMALL 1000]))))"
    by simp
  from h 1 2 m x 3 show ?thesis by (intro conjI)
qed

text \<open>Claim C6 (expiry boundary). A sweep at instant \<open>now\<close> over a state a run reaches
  keeps exactly the table entries whose ticket is not expired, in their order, and appends
  the locker of every expired ticket to the tail of the pool it was seeded in. A ticket is
  expired when \<open>now - creationTime\<close>, computed in 64-bit two's complement, is greater than
  259200000 ms (three days) in the signed order; where the difference of the two instants
  fits 64 bits this is the comparison of the true age. An entry created at \<open>T\<close> survives
  the sweeps at \<open>T + retention - 1\<close> and at \<open>T + retention\<close>, and the sweep at
  \<open>T + retention + 1\<close> removes it and reclaims its locker.\<close>

theorem expiry_sweep:
  "activeTickets (snd (snd (cleanup now (run cs))))
      = filter (\<lambda>e. \<not> expired now (snd e)) (activeTickets (run cs))
   \<and> pools (snd (snd (cleanup now (run cs))))
      = map (\<lambda>i. pools (run cs) ! i @
               filter (\<lambda>l. l \<in> set (pools (run []) ! i)) (reclaimed now (run cs))) [0, 1, 2]
   \<and> reclaimed now (run cs)
      = map (\<lambda>e. lockerId (snd e))
          (filter (\<lambda>e. threeDaysInMillis <s now - creationTime (snd e)) (activeTickets (run cs)))
   \<and> sint threeDaysInMillis = 3 * 24 * 60 * 60 * 1000
   \<and> (- (2 ^ 63) \<le> sint now - sint (creationTime t) \<and> sint now - sint (creationTime t) < 2 ^ 63
        \<longrightarrow> expired now t = (3 * 24 * 60 * 60 * 1000 < sint now - sint (creationTime t)))
   \<and> (e \<in> set (activeTickets (run cs)) \<longrightarrow>
        e \<in> set (activeTickets (snd (snd (cleanup (creationTime (snd e) + threeDaysInMillis - 1) (run cs)))))
        \<and> e \<in> set (activeTickets (snd (snd (cleanup (creationTime (snd e) + threeDaysInMillis) (run cs)))))
        \<and> e \<notin> set (activeTickets (snd (snd (cleanup (creationTime (snd e) + threeDaysInMillis + 1) (run cs)))))
        \<and> lockerId (snd e) \<in> set (reclaimed (creationTime (snd e) + threeDaysInMillis + 1) (run cs)))"
proof (intro conjI impI)
  show "activeTickets (snd (snd (cleanup now (run cs))))
      = filter (\<lambda>e. \<not> expired now (snd e)) (activeTickets (run cs))"
    by (simp add: cleanup_state)
  show "pools (snd (snd (cleanup now (run cs))))
      = map (\<lambda>i. pools (run cs) ! i @
               filter (\<lambda>l. l \<in> set (pools (run []) ! i)) (reclaimed now (run cs))) [0, 1, 2]"
    by (simp only: run_Nil cleanup_pools [OF inv_run])
  show "reclaimed now (run cs)
      = map (\<lambda>e. lockerId (snd e))
          (filter (\<lambda>e. threeDaysInMillis <s now - creationTime (snd e)) (activeTickets (run cs)))"
    by (simp add: reclaimed_def expired_def)
  show "sint threeDaysInMillis = 3 * 24 * 60 * 60 * 1000"
    by (simp add: sint_threeDays)
next
  assume "- (2 ^ 63) \<le> sint now - sint (creationTime t) \<and> sint now - sint (creationTime t) < 2 ^ 63"
  then show "expired now t = (3 * 24 * 60 * 60 * 1000 < sint now - sint (creationTime t))"
    by (simp add: expired_age)
next
  assume e: "e \<in> set (activeTickets (run cs))"
  with expired_boundary(1) [of "snd e"]
  show "e \<in> set (activeTickets (snd (snd (cleanup (creationTime (snd e) + threeDaysInMillis - 1) (run cs)))))"
    by (simp add: cleanup_state)
  from e expired_boundary(2) [of "snd e"]
  show "e \<in> set (activeTickets (snd (snd (cleanup (creationTime (snd e) + threeDaysInMillis) (run cs)))))"
    by (simp add: cleanup_state)
  from expired_boundary(3) [of "snd e"]
  show "e \<notin> set (activeTickets (snd (snd (cleanup (creationTime (snd e) + threeDaysInMillis + 1) (run cs)))))"
    by (simp add: cleanup_state)
  from e expired_boundary(3) [of "snd e"]
  show "lockerId (snd e) \<in> set (reclaimed (creationTime (snd e) + threeDaysInMillis + 1) (run cs))"
    by (auto simp: reclaimed_def)
qed

theorem expiry_sweep_witness:
  "activeTickets (run [Deposit LARGE 1000, Deposit SMALL 5000]) =
      [(''L-0-1000'', \<lparr>lockerId = ''L-0'', code = ''L-0-1000'', creationTime = 1000\<rparr>),
       (''S-0-5000'', \<lparr>lockerId = ''S-0'', code = ''S-0-5000'', creationTime = 5000\<rparr>)]
   \<and> activeTickets (snd (snd (cleanup 259201001 (run [Deposit LARGE 1000, Deposit SMALL 5000])))) =
      [(''S-0-5000'', \<lparr>lockerId = ''S-0'', code = ''S-0-5000'', creationTime = 5000\<rparr>)]
   \<and> pools (snd (snd (cleanup 259201001 (run [Deposit LARGE 1000, Deposit SMALL 5000])))) =
      [tl (seed ''S-''), seed ''M-'', tl (seed ''L-'') @ [''L-0'']]
   \<and> (''L-0-1000'', \<lparr>lockerId = ''L-0'', code = ''L-0-1000'', creationTime = 1000\<rparr>)
      \<in> set (activeTickets (snd (snd (cleanup 259200999 (run [Deposit LARGE 1000, Deposit SMALL 5000])))))
   \<and> (''L-0-1000'', \<lparr>lockerId = ''L-0'', code = ''L-0-1000'', creationTime = 1000\<rparr>)
      \<in> set (activeTickets (snd (snd (cleanup 259201000 (run [Deposit LARGE 1000, Deposit SMALL 5000])))))
   \<and> (''L-0-1000'', \<lparr>lockerId = ''L-0'', code = ''L-0-1000'', creationTime = 1000\<rparr>)
      \<notin> set (activeTickets (snd (snd (cleanup 259201001 (run [Deposit LARGE 1000, Deposit SMALL 5000])))))
   \<and> expired 259201001 \<lparr>lockerId = ''L-0'', code = ''L-0-1000'', creationTime = 1000\<rparr>
   \<and> sint (259201001 :: 64 word) - sint (1000 :: 64 word) = 259200001"
proof -
  let ?C = "[Deposit LARGE 1000, Deposit SMALL 5000]"
  let ?t = "\<lparr>lockerId = ''L-0'', code = ''L-0-1000'', creationTime = 1000\<rparr>"
  let ?E = "(''L-0-1000'', ?t)"
  have st: "run ?C =
     \<lparr>queues0 = tl (seed ''S-''), queues1 = seed ''M-'', queues2 = tl (seed ''L-''),
      activeTickets = [?E, (''S-0-5000'', \<lparr>lockerId = ''S-0'', code = ''S-0-5000'', creationTime = 5000\<rparr>)]\<rparr>"
    by (simp add: eval_defs)
  have tab: "activeTickets (run ?C) =
      [?E, (''S-0-5000'', \<lparr>lockerId = ''S-0'', code = ''S-0-5000'', creationTime = 5000\<rparr>)]"
    by (simp add: st)
  have mem: "?E \<in> set (activeTickets (run ?C))" by (simp add: tab)
  have keep: "filter (\<lambda>e. \<not> expired 259201001 (snd e)) (activeTickets (run ?C)) =
      [(''S-0-5000'', \<lparr>lockerId = ''S-0'', code = ''S-0-5000'', creationTime = 5000\<rparr>)]"
    by (simp add: tab expired_def threeDaysInMillis_def)
  have rec: "reclaimed 259201001 (run ?C) = [''L-0'']"
    by (simp add: reclaimed_def tab expired_def threeDaysInMillis_def)
  have p: "pools (run ?C) = [tl (seed ''S-''), seed ''M-'', tl (seed ''L-'')]"
    by (simp add: st pools_def)
  have p0: "pools (run []) = [seed ''S-'', seed ''M-'', seed ''L-'']"
    by (simp add: run_Nil pools_new)
  have n1: "creationTime (snd ?E) + threeDaysInMillis - 1 = 259200999"
    and n2: "creationTime (snd ?E) + threeDaysInMillis = 259201000"
    and n3: "creationTime (snd ?E) + threeDaysInMillis + 1 = 259201001"
    by (simp_all add: threeDaysInMillis_def)
  have m1: "(259201000 :: 64 word) - 1 = 259200999" and m3: "(259201000 :: 64 word) + 1 = 259201001"
    by simp_all
  note T = expiry_sweep [where now = 259201001 and cs = ?C and e = ?E and t = ?t]
  note T1 = T [THEN conjunct1]
  note T2 = T [THEN conjunct2, THEN conjunct1]
  note T6 = T [THEN conjunct2, THEN conjunct2, THEN conjunct2, THEN conjunct2, THEN conjunct2,
    THEN mp, OF mem]
  have a: "activeTickets (snd (snd (cleanup 259201001 (run ?C)))) =
      [(''S-0-5000'', \<lparr>lockerId = ''S-0'', code = ''S-0-5000'', creationTime = 5000\<rparr>)]"
    by (simp only: T1 keep)
  have "pools (snd (snd (cleanup 259201001 (run ?C)))) =
      map (\<lambda>i. [tl (seed ''S-''), seed ''M-'', tl (seed ''L-'')] ! i @
        filter (\<lambda>l. l \<in> set ([seed ''S-'', seed ''M-'', seed ''L-''] ! i)) [''L-0'']) [0, 1, 2]"
    by (simp only: T2 p p0 rec)
  also have "\<dots> = [tl (seed ''S-''), seed ''M-'', tl (seed ''L-'') @ [''L-0'']]"
    by (simp add: seed_S seed_M seed_L)
  finally have b: "pools (snd (snd (cleanup 259201001 (run ?C)))) =
      [tl (seed ''S-''), seed ''M-'', tl (seed ''L-'') @ [''L-0'']]" .
  have c: "?E \<in> set (activeTickets (snd (snd (cleanup 259200999 (run ?C)))))"
    "?E \<in> set (activeTickets (snd (snd (cleanup 259201000 (run ?C)))))"
    "?E \<notin> set (activeTickets (snd (snd (cleanup 259201001 (run ?C)))))"
    using T6 by (simp_all only: n2 m1 m3 not_False_eq_True)
  have d: "expired 259201001 ?t" by (simp add: expired_def threeDaysInMillis_def)
  have e: "sint (259201001 :: 64 word) - sint (1000 :: 64 word) = 259200001" by simp
  from tab a b c d e show ?thesis by (intro conjI)
qed

text \<open>Claim C7 as stated fails in its last part: the second sweep does not return an
  empty reclamation list, since \<^verbatim>\<open>cleanup\<close> returns \<^verbatim>\<open>void\<close>. The first sweep below reclaims
  locker S-0 and the second reclaims nothing, yet both return the same value; what differs
  is what they write.\<close>

theorem sweep_second_result_counterexample:
  "reclaimed 259201001 (run [Deposit SMALL 1000]) = [''S-0'']
   \<and> reclaimed 259201001 (snd (snd (cleanup 259201001 (run [Deposit SMALL 1000])))) = []
   \<and> fst (cleanup 259201001 (snd (snd (cleanup 259201001 (run [Deposit SMALL 1000])))))
       = fst (cleanup 259201001 (run [Deposit SMALL 1000]))
   \<and> fst (snd (cleanup 259201001 (run [Deposit SMALL 1000])))
       = [''Expired package removed from S-0'']
   \<and> fst (snd (cleanup 259201001 (snd (snd (cleanup 259201001 (run [Deposit SMALL 1000])))))) = []"
proof -
  let ?W = "run [Deposit SMALL 1000]"
  have tab: "activeTickets ?W =
      [(''S-0-1000'', \<lparr>lockerId = ''S-0'', code = ''S-0-1000'', creationTime = 1000\<rparr>)]"
    by (simp add: eval_defs)
  have a: "reclaimed 259201001 ?W = [''S-0'']"
    by (simp add: reclaimed_def tab expired_def threeDaysInMillis_def)
  have b: "reclaimed 259201001 (snd (snd (cleanup 259201001 ?W))) = []"
    by (simp add: reclaimed_def cleanup_state)
  have c: "fst (cleanup 259201001 (snd (snd (cleanup 259201001 ?W)))) = fst (cleanup 259201001 ?W)"
    by simp
  have d: "fst (snd (cleanup 259201001 ?W)) = [''Expired package removed from S-0'']"
    by (simp only: cleanup_out a) simp
  have e: "fst (snd (cleanup 259201001 (snd (snd (cleanup 259201001 ?W))))) = []"
    by (simp only: cleanup_out b list.map)
  from a b c d e show ?thesis by (intro conjI)
qed

text \<open>Claim C7, as amended (idempotent sweep). For every state, a second sweep at the same
  clock reading, run right after the first, returns nothing, writes no reclamation line,
  leaves the pools and the ticket table as the first sweep left them, and finds no locker
  to reclaim.\<close>

theorem sweep_idempotent:
  "cleanup now (snd (snd (cleanup now s))) = ((), [], snd (snd (cleanup now s)))
   \<and> reclaimed now (snd (snd (cleanup now s))) = []"
proof -
  let ?s' = "snd (snd (cleanup now s))"
  have tab: "activeTickets ?s' = filter (\<lambda>e. \<not> expired now (snd e)) (activeTickets s)"
    by (simp add: cleanup_state)
  have rec: "reclaimed now ?s' = []"
    by (simp add: reclaimed_def tab)
  have out: "fst (snd (cleanup now ?s')) = []"
    by (simp only: cleanup_out rec list.map)
  have "filter (\<lambda>e. \<not> expired now (snd e)) (activeTickets ?s') = activeTickets ?s'"
    by (simp add: tab)
  then have st: "snd (snd (cleanup now ?s')) = ?s'"
    by (simp only: cleanup_state [of now ?s'] rec filter.simps append_Nil2) simp
  have "cleanup now ?s' = ((), fst (snd (cleanup now ?s')), snd (snd (cleanup now ?s')))"
    by (simp add: cleanup_def)
  with out st rec show ?thesis by simp
qed

text \<open>Claim C8 (FIFO discipline). In every state, a deposit that succeeds takes the front
  entry of the first non-empty pool among the requested class and the larger ones, and
  removes exactly that entry; entries only ever enter a pool at its tail, so the front is
  the oldest. In every state a run reaches, a pickup that succeeds appends the ticket's
  locker to the tail of the pool it was seeded in, and a sweep appends the lockers it
  reclaims, in scan order, to the tails of the pools they were seeded in. In the scenario
  with two SMALL lockers and no others: two deposits hand out S-0 and S-1, a third fails,
  the pickup of the first code returns S-0, and the next deposit receives S-0 again,
  whatever the clock reads.\<close>

theorem fifo_discipline:
  "(deposit sz now s = (Inr t, s') \<longrightarrow>
      (\<exists>i. sizeToInt sz \<le> i \<and> i < 3
        \<and> (\<forall>j. sizeToInt sz \<le> j \<and> j < i \<longrightarrow> pools s ! j = [])
        \<and> pools s ! i = lockerId t # tl (pools s ! i)
        \<and> pools s' = (pools s)[i := tl (pools s ! i)]))
   \<and> (pickup c (run cs) = (Inr m, u) \<longrightarrow>
      (\<exists>k i. map_of (activeTickets (run cs)) c = Some k \<and> i < 3
        \<and> lockerId k \<in> set (pools (run []) ! i)
        \<and> pools u = (pools (run cs))[i := pools (run cs) ! i @ [lockerId k]]))
   \<and> pools (snd (snd (cleanup now (run cs))))
      = map (\<lambda>i. pools (run cs) ! i @
               filter (\<lambda>l. l \<in> set (pools (run []) ! i)) (reclaimed now (run cs))) [0, 1, 2]
   \<and> (case deposit SMALL ta two_small of
        (Inr k1, sA) \<Rightarrow> lockerId k1 = ''S-0'' \<and>
          (case deposit SMALL tb sA of
             (Inr k2, sB) \<Rightarrow> lockerId k2 = ''S-1'' \<and>
               fst (deposit SMALL tc sB) = Inl (runtime_error ''No locker available for size SMALL'') \<and>
               (case pickup (code k1) sB of
                  (Inr msg, sC) \<Rightarrow> msg = ''Locker S-0 opened. Package retrieved.'' \<and>
                    queues0 sC = [''S-0''] \<and>
                    (case deposit SMALL td sC of
                       (Inr k4, sD) \<Rightarrow> lockerId k4 = ''S-0'' \<and> queues0 sD = []
                     | (Inl err, sD) \<Rightarrow> False)
                | (Inl err, sC) \<Rightarrow> False)
           | (Inl err, sB) \<Rightarrow> False)
      | (Inl err, sA) \<Rightarrow> False)"
proof (intro conjI impI)
  assume "deposit sz now s = (Inr t, s')"
  then show "\<exists>i. sizeToInt sz \<le> i \<and> i < 3
        \<and> (\<forall>j. sizeToInt sz \<le> j \<and> j < i \<longrightarrow> pools s ! j = [])
        \<and> pools s ! i = lockerId t # tl (pools s ! i)
        \<and> pools s' = (pools s)[i := tl (pools s ! i)]"
    by (rule deposit_takes_front)
next
  assume "pickup c (run cs) = (Inr m, u)"
  from pickup_appends [OF inv_run this]
  show "\<exists>k i. map_of (activeTickets (run cs)) c = Some k \<and> i < 3
        \<and> lockerId k \<in> set (pools (run []) ! i)
        \<and> pools u = (pools (run cs))[i := pools (run cs) ! i @ [lockerId k]]"
    by (simp only: run_Nil)
next
  show "pools (snd (snd (cleanup now (run cs))))
      = map (\<lambda>i. pools (run cs) ! i @
               filter (\<lambda>l. l \<in> set (pools (run []) ! i)) (reclaimed now (run cs))) [0, 1, 2]"
    by (simp only: run_Nil cleanup_pools [OF inv_run])
next
  show "case deposit SMALL ta two_small of
        (Inr k1, sA) \<Rightarrow> lockerId k1 = ''S-0'' \<and>
          (case deposit SMALL tb sA of
             (Inr k2, sB) \<Rightarrow> lockerId k2 = ''S-1'' \<and>
               fst (deposit SMALL tc sB) = Inl (runtime_error ''No locker available for size SMALL'') \<and>
               (case pickup (code k1) sB of
                  (Inr msg, sC) \<Rightarrow> msg = ''Locker S-0 opened. Package retrieved.'' \<and>
                    queues0 sC = [''S-0''] \<and>
                    (case deposit SMALL td sC of
                       (Inr k4, sD) \<Rightarrow> lockerId k4 = ''S-0'' \<and> queues0 sD = []
                     | (Inl err, sD) \<Rightarrow> False)
                | (Inl err, sC) \<Rightarrow> False)
           | (Inl err, sB) \<Rightarrow> False)
      | (Inl err, sA) \<Rightarrow> False"
    by (simp add: two_small_def deposit_def findBestFit_def pop0_def pop1_def pop2_def Let_def
        mint_def pickup_def returnLocker_def sizeToString_def)
qed

theorem fifo_discipline_witness:
  "deposit SMALL 1000 (run []) =
      (Inr \<lparr>lockerId = ''S-0'', code = ''S-0-1000'', creationTime = 1000\<rparr>,
       \<lparr>queues0 = tl (seed ''S-''), queues1 = seed ''M-'', queues2 = seed ''L-'',
           activeTickets = [(''S-0-1000'', \<lparr>lockerId = ''S-0'', code = ''S-0-1000'', creationTime = 1000\<rparr>)]\<rparr>)
   \<and> (\<exists>i. sizeToInt SMALL \<le> i \<and> i < 3
        \<and> (\<forall>j. sizeToInt SMALL \<le> j \<and> j < i \<longrightarrow> pools (run []) ! j = [])
        \<and> pools (run []) ! i = lockerId \<lparr>lockerId = ''S-0'', code = ''S-0-1000'', creationTime = 1000\<rparr> # tl (pools (run []) ! i)
        \<and> pools \<lparr>queues0 = tl (seed ''S-''), queues1 = seed ''M-'', queues2 = seed ''L-'',
           activeTickets = [(''S-0-1000'', \<lparr>lockerId = ''S-0'', code = ''S-0-1000'', creationTime = 1000\<rparr>)]\<rparr>
            = (pools (run []))[i := tl (pools (run []) ! i)])
   \<and> pickup ''S-0-1000'' (run [Deposit SMALL 1000]) =
      (Inr ''Locker S-0 opened. Package retrieved.'',
       \<lparr>queues0 = tl (seed ''S-'') @ [''S-0''], queues1 = seed ''M-'', queues2 = seed ''L-'',
           activeTickets = []\<rparr>)
   \<and> (\<exists>k i. map_of (activeTickets (run [Deposit SMALL 1000])) ''S-0-1000'' = Some k \<and> i < 3
        \<and> lockerId k \<in> set (pools (run []) ! i)
        \<and> pools \<lparr>queues0 = tl (seed ''S-'') @ [''S-0''], queues1 = seed ''M-'', queues2 = seed ''L-'',
           activeTickets = []\<rparr>
            = (pools (run [Deposit SMALL 1000]))[i := pools (run [Deposit SMALL 1000]) ! i @ [lockerId k]])
   \<and> (case deposit SMALL 1000 two_small of
        (Inr k1, sA) \<Rightarrow> lockerId k1 = ''S-0'' \<and>
          (case deposit SMALL 1000 sA of
             (Inr k2, sB) \<Rightarrow> lockerId k2 = ''S-1'' \<and>
               fst (deposit SMALL 2000 sB) = Inl (runtime_error ''No locker available for size SMALL'') \<and>
               (case pickup (code k1) sB of
                  (Inr msg, sC) \<Rightarrow> msg = ''Locker S-0 opened. Package retrieved.'' \<and>
                    queues0 sC = [''S-0''] \<and>
                    (case deposit SMALL 5000 sC of
                       (Inr k4, sD) \<Rightarrow> lockerId k4 = ''S-0'' \<and> queues0 sD = []
                     | (Inl err, sD) \<Rightarrow> False)
                | (Inl err, sC) \<Rightarrow> False)
           | (Inl err, sB) \<Rightarrow> False)
      | (Inl err, sA) \<Rightarrow> False)"
proof -
  have d: "deposit SMALL 1000 (run []) =
      (Inr \<lparr>lockerId = ''S-0'', code = ''S-0-1000'', creationTime = 1000\<rparr>,
       \<lparr>queues0 = tl (seed ''S-''), queues1 = seed ''M-'', queues2 = seed ''L-'',
           activeTickets = [(''S-0-1000'', \<lparr>lockerId = ''S-0'', code = ''S-0-1000'', creationTime = 1000\<rparr>)]\<rparr>)"
    by (simp add: eval_defs)
  have pk: "pickup ''S-0-1000'' (run [Deposit SMALL 1000]) =
      (Inr ''Locker S-0 opened. Package retrieved.'',
       \<lparr>queues0 = tl (seed ''S-'') @ [''S-0''], queues1 = seed ''M-'', queues2 = seed ''L-'',
           activeTickets = []\<rparr>)"
    by (simp add: eval_defs)
  note T = fifo_discipline [where sz = SMALL and now = 1000 and s = "run []"
      and t = \<open>\<lparr>lockerId = ''S-0'', code = ''S-0-1000'', creationTime = 1000\<rparr>\<close>
      and s' = \<open>\<lparr>queues0 = tl (seed ''S-''), queues1 = seed ''M-'', queues2 = seed ''L-'',
           activeTickets = [(''S-0-1000'', \<lparr>lockerId = ''S-0'', code = ''S-0-1000'', creationTime = 1000\<rparr>)]\<rparr>\<close>
      and c = "''S-0-1000''" and cs = "[Deposit SMALL 1000]"
      and m = \<open>''Locker S-0 opened. Package retrieved.''\<close>
      and u = \<open>\<lparr>queues0 = tl (seed ''S-'') @ [''S-0''], queues1 = seed ''M-'', queues2 = seed ''L-'',
           activeTickets = []\<rparr>\<close>
      and ta = 1000 and tb = 1000 and tc = 2000 and td = 5000]
  note a = T [THEN conjunct1, THEN mp, OF d]
  note b = T [THEN conjunct2, THEN conjunct1, THEN mp, OF pk]
  note c = T [THEN conjunct2, THEN conjunct2, THEN conjunct2]
  from d a pk b c show ?thesis by (intro conjI)
qed

text \<open>Claim C9 as stated fails: the value \<^verbatim>\<open>cleanup\<close> returns is the same in a run that
  reclaims locker L-0 and in a run that reclaims nothing, so it is not the list of
  reclaimed lockers.\<close>

theorem sweep_result_counterexample:
  "fst (cleanup 345601000 (run [Deposit LARGE 1000])) = fst (cleanup 345601000 (run []))
   \<and> reclaimed 345601000 (run [Deposit LARGE 1000]) = [''L-0'']
   \<and> reclaimed 345601000 (run []) = []"
proof -
  have tab: "activeTickets (run [Deposit LARGE 1000]) =
      [(''L-0-1000'', \<lparr>lockerId = ''L-0'', code = ''L-0-1000'', creationTime = 1000\<rparr>)]"
    by (simp add: eval_defs)
  have "reclaimed 345601000 (run [Deposit LARGE 1000]) = [''L-0'']"
    by (simp add: reclaimed_def tab expired_def threeDaysInMillis_def)
  moreover have "reclaimed 345601000 (run []) = []"
    by (simp add: reclaimed_def run_Nil new_LockerService_def)
  ultimately show ?thesis by simp
qed

text \<open>Claim C9, as amended. \<^verbatim>\<open>cleanup\<close> returns \<^verbatim>\<open>void\<close>. It reports the lockers it reclaims
  on \<^verbatim>\<open>std::cout\<close>, one line per reclaimed locker, in the order of the scan; when no ticket
  exceeds the retention threshold it writes nothing and changes nothing.\<close>

theorem sweep_reports_reclaimed:
  "fst (cleanup now s) = ()
   \<and> fst (snd (cleanup now s)) = map (\<lambda>l. ''Expired package removed from '' @ l) (reclaimed now s)
   \<and> (\<not> list_ex (\<lambda>e. expired now (snd e)) (activeTickets s) \<longrightarrow>
        cleanup now s = ((), [], s))"
proof (intro conjI impI)
  show "fst (cleanup now s) = ()" by simp
  show "fst (snd (cleanup now s)) = map (\<lambda>l. ''Expired package removed from '' @ l) (reclaimed now s)"
    by (rule cleanup_out)
  assume "\<not> list_ex (\<lambda>e. expired now (snd e)) (activeTickets s)"
  then have none: "filter (\<lambda>e. expired now (snd e)) (activeTickets s) = []"
    and all: "filter (\<lambda>e. \<not> expired now (snd e)) (activeTickets s) = activeTickets s"
    by (simp_all add: list_ex_iff filter_empty_conv)
  from none have rec: "reclaimed now s = []" by (simp add: reclaimed_def)
  have "snd (snd (cleanup now s)) = s"
    by (simp only: cleanup_state rec all filter.simps append_Nil2) simp
  moreover have "fst (snd (cleanup now s)) = []"
    by (simp only: cleanup_out rec list.map)
  moreover have "cleanup now s = ((), fst (snd (cleanup now s)), snd (snd (cleanup now s)))"
    by (simp add: cleanup_def)
  ultimately show "cleanup now s = ((), [], s)" by simp
qed

theorem sweep_reports_reclaimed_witness:
  "\<not> list_ex (\<lambda>e. expired 259201000 (snd e)) (activeTickets (run [Deposit LARGE 1000]))
   \<and> cleanup 259201000 (run [Deposit LARGE 1000]) = ((), [], run [Deposit LARGE 1000])
   \<and> reclaimed 259201001 (run [Deposit LARGE 1000]) = [''L-0'']
   \<and> fst (snd (cleanup 259201001 (run [Deposit LARGE 1000]))) = [''Expired package removed from L-0'']"
proof -
  have tab: "activeTickets (run [Deposit LARGE 1000]) =
      [(''L-0-1000'', \<lparr>lockerId = ''L-0'', code = ''L-0-1000'', creationTime = 1000\<rparr>)]"
    by (simp add: eval_defs)
  have h: "\<not> list_ex (\<lambda>e. expired 259201000 (snd e)) (activeTickets (run [Deposit LARGE 1000]))"
    by (simp add: tab expired_def threeDaysInMillis_def)
  have r: "reclaimed 259201001 (run [Deposit LARGE 1000]) = [''L-0'']"
    by (simp add: reclaimed_def tab expired_def threeDaysInMillis_def)
  from sweep_reports_reclaimed [of 259201000 "run [Deposit LARGE 1000]"] h
  have 1: "cleanup 259201000 (run [Deposit LARGE 1000]) = ((), [], run [Deposit LARGE 1000])"
    by blast
  from sweep_reports_reclaimed [of 259201001 "run [Deposit LARGE 1000]"]
  have 2: "fst (snd (cleanup 259201001 (run [Deposit LARGE 1000]))) = [''Expired package removed from L-0'']"
    by (simp add: r)
  from h 1 r 2 show ?thesis by (intro conjI)
qed

text \<open>Claim C10 (codes of active tickets are unique). In every state a run reaches, every
  table entry is keyed by its ticket's code, the code is the ticket's locker identifier
  followed by a dash and the decimal of the creation instant modulo 10000, no two active
  tickets hold the same locker, and no two active tickets have the same code. A deposit
  that succeeds there mints a code that is no key of the table, so it appends a new entry
  and overwrites none; a deposit that fails leaves the table as it is.\<close>

theorem active_codes_unique:
  "list_all (\<lambda>e. fst e = code (snd e)
        \<and> code (snd e) = lockerId (snd e) @ ''-'' @ to_string (sint (creationTime (snd e)) smod 10000))
      (activeTickets (run cs))
   \<and> distinct (map (\<lambda>e. lockerId (snd e)) (activeTickets (run cs)))
   \<and> distinct (map (\<lambda>e. code (snd e)) (activeTickets (run cs)))
   \<and> (case deposit sz now (run cs) of
        (Inr t, s') \<Rightarrow>
          code t \<notin> fst ` set (activeTickets (run cs))
          \<and> activeTickets s' = activeTickets (run cs) @ [(code t, t)]
      | (Inl err, s') \<Rightarrow> activeTickets s' = activeTickets (run cs))"
proof (intro conjI)
  let ?s = "run cs"
  have inv: "inv ?s" by (rule inv_run)
  then have m: "list_all minted (activeTickets ?s)" by (simp add: inv_def)
  have "code (snd e) = lockerId (snd e) @ ''-'' @ to_string (sint (creationTime (snd e)) smod 10000)"
    if "minted e" for e
  proof -
    from that have "code (snd e) = code (mint (lockerId (snd e)) (creationTime (snd e)))"
      by (simp add: minted_def)
    then show ?thesis by (simp add: mint_def)
  qed
  with m show "list_all (\<lambda>e. fst e = code (snd e)
        \<and> code (snd e) = lockerId (snd e) @ ''-'' @ to_string (sint (creationTime (snd e)) smod 10000))
      (activeTickets ?s)"
    by (auto simp: list_all_iff minted_def)
  from inv show "distinct (map (\<lambda>e. lockerId (snd e)) (activeTickets ?s))"
    by (rule inv_distinct_lockers)
  from inv have "distinct (map fst (activeTickets ?s))" by (simp add: inv_def)
  then show "distinct (map (\<lambda>e. code (snd e)) (activeTickets ?s))"
    by (simp only: inv_keys_are_codes [OF inv])
  obtain l s1 where f: "findBestFit sz ?s = (l, s1)" by (cases "findBestFit sz ?s")
  show "case deposit sz now ?s of
        (Inr t, s') \<Rightarrow>
          code t \<notin> fst ` set (activeTickets ?s)
          \<and> activeTickets s' = activeTickets ?s @ [(code t, t)]
      | (Inl err, s') \<Rightarrow> activeTickets s' = activeTickets ?s"
  proof (cases "l = []")
    case True
    with findBestFit_inv [OF inv f] have "s1 = ?s" by simp
    with True f show ?thesis by (simp add: deposit_none)
  next
    case False
    with findBestFit_inv [OF inv f] have "l \<in># free ?s" by simp
    with inv have "code (mint l now) \<notin> fst ` set (activeTickets ?s)" by (rule inv_fresh_code)
    with deposit_popped [OF inv f False] show ?thesis by simp
  qed
qed

end
